theory Spec2Isabelle
  imports Main "HOL-Library.Code_Target_Numeral"
begin

section \<open>The buffered segment reader of \<open>get_next_line.c\<close>\<close>

text \<open>
  The development embeds \<open>get_next_line.c\<close> (the in-place compacting reader with an
  explicit end-of-file flag) and proves the properties of its specification.

  Conventions of the embedding:
  \<^item> a C \<open>char\<close> is a \<^typ>\<open>char\<close> (one byte); a block of memory is the list of its bytes;
  \<^item> \<open>size_t\<close> is 64 bits wide: its arithmetic is written on \<^typ>\<open>nat\<close> with the
    reduction modulo \<open>2 ^ 64\<close> spelled out; \<open>ssize_t\<close> is \<^typ>\<open>int\<close>, with the
    conversions from and to \<open>size_t\<close> spelled out;
  \<^item> \<open>GNL_BUFFER_SIZE\<close> and \<open>GNL_MAX_FD\<close> are compile-time macros that may be overridden;
    they are the fields of a configuration, whose default holds the header's values;
  \<^item> \<open>read\<close>, \<open>malloc\<close>, \<open>calloc\<close> and \<open>realloc\<close> belong to the host: they are
    functions on an explicit world that holds, for every descriptor, the bytes it has not
    delivered yet, and scripts that decide which calls fail and how short a read is;
  \<^item> the static array \<open>g_buffers\<close> is a map from descriptors to buffer structures; a
    function that mutates a buffer through its pointer returns the updated structure, and
    the entry point stores it back into the map;
  \<^item> a function that may not return has an optional result, and \<open>None\<close> is a call that
    does not return.
\<close>

subsection \<open>Machine integers\<close>

definition SIZE_MOD :: nat where
  "SIZE_MOD = 2 ^ 64"

definition SSIZE_MAX :: nat where
  "SSIZE_MAX = 2 ^ 63 - 1"

definition size_add :: "nat \<Rightarrow> nat \<Rightarrow> nat" where
  "size_add a b = (a + b) mod SIZE_MOD"

definition size_sub :: "nat \<Rightarrow> nat \<Rightarrow> nat" where
  "size_sub a b = (a mod SIZE_MOD + SIZE_MOD - b mod SIZE_MOD) mod SIZE_MOD"

definition size_mul :: "nat \<Rightarrow> nat \<Rightarrow> nat" where
  "size_mul a b = (a * b) mod SIZE_MOD"

text \<open>Conversion of a \<open>size_t\<close> (or a pointer difference) to \<open>ssize_t\<close>, and back.\<close>

definition to_ssize :: "nat \<Rightarrow> int" where
  "to_ssize n =
     (if n mod SIZE_MOD \<le> SSIZE_MAX then int (n mod SIZE_MOD)
      else int (n mod SIZE_MOD) - int SIZE_MOD)"

definition of_ssize :: "int \<Rightarrow> nat" where
  "of_ssize i = nat (i mod int SIZE_MOD)"

subsection \<open>Return codes and configuration\<close>

definition GNL_LINE_READ :: int where
  "GNL_LINE_READ = 1"

definition GNL_EOF :: int where
  "GNL_EOF = 0"

definition GNL_ERROR :: int where
  "GNL_ERROR = - 1"

definition GNL_DEFAULT_DELIM :: char where
  "GNL_DEFAULT_DELIM = CHR 0x0A"

record config =
  GNL_BUFFER_SIZE :: nat
  GNL_MAX_FD :: int

definition default_config :: config where
  "default_config = \<lparr>GNL_BUFFER_SIZE = 4096, GNL_MAX_FD = 1024\<rparr>"

subsection \<open>The host: descriptors and the allocator\<close>

text \<open>
  One scripted event decides the next \<open>read\<close>: it fails, or it delivers at most \<open>k + 1\<close>
  bytes (a blocking read never comes back empty-handed before the end of the stream). A
  failing read transfers nothing and leaves the stream where it was.
  One scripted event decides the next allocation: it fails, or it succeeds and hands out
  memory whose indeterminate content is the given byte. When a script has run out, reads
  deliver all they are asked for and allocations succeed with zeroed memory. No object is
  larger than \<open>PTRDIFF_MAX\<close> bytes, so a larger request is always refused.
\<close>

datatype read_event = ReadError | ReadShort nat

datatype alloc_event = AllocFail | AllocOk char

record world =
  pending :: "int \<Rightarrow> char list"
  read_script :: "read_event list"
  alloc_script :: "alloc_event list"

definition deliver :: "world \<Rightarrow> int \<Rightarrow> nat \<Rightarrow> read_event list \<Rightarrow> char list option \<times> world" where
  "deliver w fd n es =
     (Some (take n (pending w fd)),
      w\<lparr>pending := (pending w)(fd := drop n (pending w fd)), read_script := es\<rparr>)"

text \<open>\<open>read(fd, p, n)\<close>: \<open>None\<close> is the return value \<open>-1\<close>; otherwise the bytes stored at \<open>p\<close>.\<close>

definition sys_read :: "world \<Rightarrow> int \<Rightarrow> nat \<Rightarrow> char list option \<times> world" where
  "sys_read w fd n =
     (case read_script w of
        [] \<Rightarrow> deliver w fd n []
      | ReadError # es \<Rightarrow> (None, w\<lparr>read_script := es\<rparr>)
      | ReadShort k # es \<Rightarrow> deliver w fd (min n (Suc k)) es)"

text \<open>The outcome of the next allocation of \<open>n\<close> bytes: the filler byte, or failure.\<close>

definition next_alloc :: "world \<Rightarrow> nat \<Rightarrow> char option \<times> world" where
  "next_alloc w n =
     (case alloc_script w of
        [] \<Rightarrow> (if n \<le> SSIZE_MAX then Some (CHR 0x00) else None, w)
      | AllocFail # es \<Rightarrow> (None, w\<lparr>alloc_script := es\<rparr>)
      | AllocOk c # es \<Rightarrow> (if n \<le> SSIZE_MAX then Some c else None, w\<lparr>alloc_script := es\<rparr>))"

text \<open>\<open>malloc(n)\<close>: \<open>None\<close> is \<open>NULL\<close>; otherwise the fresh block.\<close>

definition sys_malloc :: "world \<Rightarrow> nat \<Rightarrow> char list option \<times> world" where
  "sys_malloc w n =
     (case next_alloc w n of
        (None, w') \<Rightarrow> (None, w')
      | (Some c, w') \<Rightarrow> (Some (replicate n c), w'))"

text \<open>\<open>realloc(p, n)\<close>: the old bytes are kept up to the smaller of both sizes.\<close>

definition sys_realloc :: "world \<Rightarrow> char list \<Rightarrow> nat \<Rightarrow> char list option \<times> world" where
  "sys_realloc w old n =
     (case next_alloc w n of
        (None, w') \<Rightarrow> (None, w')
      | (Some c, w') \<Rightarrow> (Some (take n old @ replicate (n - length old) c), w'))"

text \<open>Storing the bytes \<open>src\<close> at offset \<open>off\<close> of a block (\<open>memcpy\<close>, \<open>read\<close>).\<close>

definition mem_write :: "char list \<Rightarrow> nat \<Rightarrow> char list \<Rightarrow> char list" where
  "mem_write dst off src = take off dst @ src @ drop (off + length src) dst"

text \<open>\<open>memchr(s, c, n)\<close>: the offset of the first \<open>c\<close> among the first \<open>n\<close> bytes.\<close>

definition memchr :: "char list \<Rightarrow> char \<Rightarrow> nat \<Rightarrow> nat option" where
  "memchr s c n =
     (if c \<in> set (take n s) then Some (length (takeWhile (\<lambda>x. x \<noteq> c) (take n s)))
      else None)"

subsection \<open>The buffer structure and the registry\<close>

text \<open>
  \<open>t_gnl_buffer\<close>; the field \<open>size\<close> is named \<open>size_b\<close> here. The flag \<open>eof_reached\<close> is
  only ever assigned 0 or 1 and only tested for truth.
\<close>

record t_gnl_buffer =
  data :: "char list"
  size_b :: nat
  len :: nat
  eof_reached :: bool

text \<open>\<open>sizeof(t_gnl_buffer)\<close>: a pointer, two \<open>size_t\<close> and a padded \<open>int\<close>.\<close>

definition SIZEOF_GNL_BUFFER :: nat where
  "SIZEOF_GNL_BUFFER = 32"

type_synonym registry = "int \<Rightarrow> t_gnl_buffer option"

subsection \<open>The functions of \<open>get_next_line.c\<close>\<close>

definition gnl_get_buffer ::
  "config \<Rightarrow> int \<Rightarrow> registry \<Rightarrow> world \<Rightarrow> t_gnl_buffer option \<times> registry \<times> world" where
  "gnl_get_buffer cfg fd g w =
     (case g fd of
        Some buf \<Rightarrow> (Some buf, g, w)
      | None \<Rightarrow>
         (case next_alloc w SIZEOF_GNL_BUFFER of
            (None, w1) \<Rightarrow> (None, g, w1)
          | (Some z, w1) \<Rightarrow>
             (case sys_malloc w1 (GNL_BUFFER_SIZE cfg) of
                (None, w2) \<Rightarrow> (None, g, w2)
              | (Some mem, w2) \<Rightarrow>
                 (let buf = \<lparr>data = mem, size_b = GNL_BUFFER_SIZE cfg, len = 0,
                             eof_reached = False\<rparr>
                  in (Some buf, g(fd \<mapsto> buf), w2)))))"

text \<open>
  The doubling loop of \<open>gnl_ensure_capacity\<close>. Nothing bounds the number of its rounds
  (from a size of 0 it never leaves), so it is a partial function: \<open>None\<close> is a loop
  that does not end.
\<close>

partial_function (option) grow_loop :: "nat \<Rightarrow> nat \<Rightarrow> nat \<Rightarrow> nat option" where
  "grow_loop new_size l needed =
     (if size_sub new_size l < needed then grow_loop (size_mul new_size 2) l needed
      else Some new_size)"

declare grow_loop.simps [code]

definition gnl_ensure_capacity ::
  "world \<Rightarrow> t_gnl_buffer \<Rightarrow> nat \<Rightarrow> (int \<times> t_gnl_buffer \<times> world) option" where
  "gnl_ensure_capacity w buf needed =
     (if size_sub (size_b buf) (len buf) \<ge> needed then Some (0, buf, w)
      else
        (case grow_loop (size_b buf) (len buf) needed of
           None \<Rightarrow> None
         | Some new_size \<Rightarrow>
            (case sys_realloc w (data buf) new_size of
               (None, w') \<Rightarrow> Some (- 1, buf, w')
             | (Some new_data, w') \<Rightarrow>
                 Some (0, buf\<lparr>data := new_data, size_b := new_size\<rparr>, w'))))"

definition gnl_extract_line ::
  "world \<Rightarrow> t_gnl_buffer \<Rightarrow> nat \<Rightarrow> char list option \<times> t_gnl_buffer \<times> world" where
  "gnl_extract_line w buf delim_pos =
     (let line_len = size_add delim_pos 1 in
      case sys_malloc w (size_add line_len 1) of
        (None, w') \<Rightarrow> (None, buf, w')
      | (Some mem, w') \<Rightarrow>
         (let line = (mem_write mem 0 (take line_len (data buf)))[line_len := CHR 0x00];
              remaining = size_sub (len buf) line_len;
              moved = (if remaining > 0
                       then mem_write (data buf) 0 (take remaining (drop line_len (data buf)))
                       else data buf)
          in (Some line, buf\<lparr>data := moved, len := remaining\<rparr>, w')))"

definition gnl_fill_buffer ::
  "config \<Rightarrow> int \<Rightarrow> world \<Rightarrow> t_gnl_buffer \<Rightarrow> (int \<times> t_gnl_buffer \<times> world) option" where
  "gnl_fill_buffer cfg fd w buf =
     (case gnl_ensure_capacity w buf (GNL_BUFFER_SIZE cfg) of
        None \<Rightarrow> None
      | Some (rc, buf1, w1) \<Rightarrow>
         (if rc < 0 then Some (- 1, buf1, w1)
          else
            (case sys_read w1 fd (GNL_BUFFER_SIZE cfg) of
               (None, w2) \<Rightarrow> Some (- 1, buf1, w2)
             | (Some chunk, w2) \<Rightarrow>
                (let bytes_read = to_ssize (length chunk);
                     buf2 = buf1\<lparr>data := mem_write (data buf1) (len buf1) chunk\<rparr>;
                     buf3 = (if bytes_read = 0 then buf2\<lparr>eof_reached := True\<rparr> else buf2)
                 in Some (bytes_read,
                          buf3\<lparr>len := size_add (len buf3) (of_ssize bytes_read)\<rparr>, w2)))))"

definition gnl_find_delim :: "t_gnl_buffer \<Rightarrow> char \<Rightarrow> int" where
  "gnl_find_delim buf delim =
     (if len buf = 0 then - 1
      else
        (case memchr (data buf) delim (len buf) of
           Some found \<Rightarrow> to_ssize found
         | None \<Rightarrow> - 1))"

text \<open>
  The loop of \<open>get_next_line_delim\<close>, on the buffer that \<open>gnl_get_buffer\<close> returned.
  The result is the return code, the pointer stored in \<open>*line\<close> (\<open>None\<close> is \<open>NULL\<close>,
  otherwise the bytes of the allocated block), the buffer and the world. \<open>None\<close> is a
  call that does not return, which can only come from the doubling loop.
\<close>

function gnl_loop ::
  "config \<Rightarrow> int \<Rightarrow> char \<Rightarrow> t_gnl_buffer \<Rightarrow> world \<Rightarrow>
     (int \<times> char list option \<times> t_gnl_buffer \<times> world) option" where
  "gnl_loop cfg fd delim buf w =
     (let delim_pos = gnl_find_delim buf delim in
      if delim_pos \<ge> 0 then
        (case gnl_extract_line w buf (of_ssize delim_pos) of
           (line, buf', w') \<Rightarrow>
             Some (if line \<noteq> None then GNL_LINE_READ else GNL_ERROR, line, buf', w'))
      else if eof_reached buf then
        (if len buf > 0 then
           (case gnl_extract_line w buf (size_sub (len buf) 1) of
              (line, buf', w') \<Rightarrow>
                Some (if line \<noteq> None then GNL_LINE_READ else GNL_ERROR, line, buf', w'))
         else Some (GNL_EOF, None, buf, w))
      else
        (case gnl_fill_buffer cfg fd w buf of
           None \<Rightarrow> None
         | Some (bytes_read, buf', w') \<Rightarrow>
             if bytes_read < 0 then Some (GNL_ERROR, None, buf', w')
             else gnl_loop cfg fd delim buf' w'))"
  by pat_completeness auto

text \<open>
  \<open>get_next_line_delim\<close>. The argument \<open>line\<close> is \<open>None\<close> for a null pointer and
  otherwise holds what the caller's pointer variable contains; the second component of
  the result is that variable after the call.
\<close>

definition get_next_line_delim ::
  "config \<Rightarrow> int \<Rightarrow> char list option option \<Rightarrow> char \<Rightarrow> registry \<Rightarrow> world \<Rightarrow>
     (int \<times> char list option option \<times> registry \<times> world) option" where
  "get_next_line_delim cfg fd line delim g w =
     (if line = None \<or> fd < 0 \<or> fd \<ge> GNL_MAX_FD cfg then Some (GNL_ERROR, line, g, w)
      else
        (case gnl_get_buffer cfg fd g w of
           (None, g1, w1) \<Rightarrow> Some (GNL_ERROR, Some None, g1, w1)
         | (Some buf, g1, w1) \<Rightarrow>
            (case gnl_loop cfg fd delim buf w1 of
               None \<Rightarrow> None
             | Some (rc, ln, buf', w') \<Rightarrow> Some (rc, Some ln, g1(fd \<mapsto> buf'), w'))))"

definition get_next_line ::
  "config \<Rightarrow> int \<Rightarrow> char list option option \<Rightarrow> registry \<Rightarrow> world \<Rightarrow>
     (int \<times> char list option option \<times> registry \<times> world) option" where
  "get_next_line cfg fd line g w = get_next_line_delim cfg fd line GNL_DEFAULT_DELIM g w"

text \<open>\<open>gnl_close\<close>; the two \<open>free\<close> calls leave no trace in the registry.\<close>

definition gnl_close :: "config \<Rightarrow> int \<Rightarrow> registry \<Rightarrow> registry" where
  "gnl_close cfg fd g =
     (if fd < 0 \<or> fd \<ge> GNL_MAX_FD cfg then g
      else (case g fd of Some buf \<Rightarrow> g(fd := None) | None \<Rightarrow> g))"

subsection \<open>Successive calls on one descriptor\<close>

text \<open>
  \<open>n\<close> successive calls of \<open>get_next_line_delim\<close> on one descriptor with one delimiter,
  each with a pointer variable that holds \<open>NULL\<close>: the return code and the pointer of
  every call, in call order, then the registry and the world they leave.
\<close>

fun gnl_calls ::
  "config \<Rightarrow> int \<Rightarrow> char \<Rightarrow> nat \<Rightarrow> registry \<Rightarrow> world \<Rightarrow>
     ((int \<times> char list option option) list \<times> registry \<times> world) option" where
  "gnl_calls cfg fd delim 0 g w = Some ([], g, w)"
| "gnl_calls cfg fd delim (Suc n) g w =
     (case get_next_line_delim cfg fd (Some None) delim g w of
        None \<Rightarrow> None
      | Some (rc, ln, g1, w1) \<Rightarrow>
         (case gnl_calls cfg fd delim n g1 w1 of
            None \<Rightarrow> None
          | Some (outs, g', w') \<Rightarrow> Some ((rc, ln) # outs, g', w')))"

text \<open>
  The segment a call returned: the bytes of the allocated line before its terminating
  zero byte; a call that stored \<open>NULL\<close> returned none.
\<close>

definition segment_of :: "int \<times> char list option option \<Rightarrow> char list" where
  "segment_of out = (case snd out of Some (Some l) \<Rightarrow> butlast l | _ \<Rightarrow> [])"

section \<open>Invariants, postconditions and the segments of a stream\<close>

subsection \<open>The buffer invariant and the bytes still to be returned\<close>

text \<open>
  The invariant of a buffer structure: the valid bytes fit into the store, the store
  has \<open>size\<close> bytes, it is never smaller than one chunk (it starts with one chunk and
  only doubles) and, as any object, never larger than \<open>PTRDIFF_MAX\<close> bytes.
\<close>

definition buf_inv :: "config \<Rightarrow> t_gnl_buffer \<Rightarrow> bool" where
  "buf_inv cfg buf \<longleftrightarrow>
     len buf \<le> size_b buf \<and> length (data buf) = size_b buf \<and>
     GNL_BUFFER_SIZE cfg \<le> size_b buf \<and> size_b buf \<le> SSIZE_MAX"

text \<open>
  The valid, unconsumed bytes \<open>[0, len)\<close> of the store.
\<close>

definition unconsumed :: "t_gnl_buffer \<Rightarrow> char list" where
  "unconsumed buf = take (len buf) (data buf)"

text \<open>
  The buffer after \<open>read\<close> has delivered \<open>chunk\<close>: the assignments of
  \<open>gnl_fill_buffer\<close> that follow the call of \<open>read\<close>.
\<close>

definition filled :: "t_gnl_buffer \<Rightarrow> char list \<Rightarrow> t_gnl_buffer" where
  "filled buf1 chunk =
     (let bytes_read = to_ssize (length chunk);
          buf2 = buf1\<lparr>data := mem_write (data buf1) (len buf1) chunk\<rparr>;
          buf3 = (if bytes_read = 0 then buf2\<lparr>eof_reached := True\<rparr> else buf2)
      in buf3\<lparr>len := size_add (len buf3) (of_ssize bytes_read)\<rparr>)"

text \<open>
  The invariant of a buffer together with its descriptor: for a positive chunk size,
  \<open>eof_reached\<close> is only set when the descriptor has nothing left to deliver.
\<close>

definition st_inv :: "config \<Rightarrow> int \<Rightarrow> t_gnl_buffer \<Rightarrow> world \<Rightarrow> bool" where
  "st_inv cfg fd buf w \<longleftrightarrow>
     buf_inv cfg buf \<and> (0 < GNL_BUFFER_SIZE cfg \<longrightarrow> eof_reached buf \<longrightarrow> pending w fd = [])"

text \<open>
  The bytes of a descriptor that no call has returned yet: those waiting in the buffer,
  then those the descriptor has not delivered.
\<close>

definition content :: "int \<Rightarrow> t_gnl_buffer \<Rightarrow> world \<Rightarrow> char list" where
  "content fd buf w = unconsumed buf @ pending w fd"

text \<open>
  No other descriptor has been read.
\<close>

definition others_kept :: "int \<Rightarrow> world \<Rightarrow> world \<Rightarrow> bool" where
  "others_kept fd w w' \<longleftrightarrow> (\<forall>fd'. fd' \<noteq> fd \<longrightarrow> pending w' fd' = pending w fd')"

text \<open>
  The same notions for a descriptor of the registry; a descriptor without an entry has
  an empty buffer.
\<close>

definition handle_inv :: "config \<Rightarrow> int \<Rightarrow> registry \<Rightarrow> world \<Rightarrow> bool" where
  "handle_inv cfg fd g w \<longleftrightarrow> (case g fd of None \<Rightarrow> True | Some b \<Rightarrow> st_inv cfg fd b w)"

definition handle_content :: "int \<Rightarrow> registry \<Rightarrow> world \<Rightarrow> char list" where
  "handle_content fd g w = (case g fd of None \<Rightarrow> [] | Some b \<Rightarrow> unconsumed b) @ pending w fd"

text \<open>
  The buffer of the descriptor is empty and its stream has ended.
\<close>

definition drained :: "int \<Rightarrow> registry \<Rightarrow> bool" where
  "drained fd g \<longleftrightarrow> (case g fd of None \<Rightarrow> False | Some b \<Rightarrow> len b = 0 \<and> eof_reached b)"

subsection \<open>What one call establishes\<close>

text \<open>
  The segment ends with the delimiter, which occurs nowhere before.
\<close>

definition ends_once :: "char \<Rightarrow> char list \<Rightarrow> bool" where
  "ends_once d seg \<longleftrightarrow> seg \<noteq> [] \<and> last seg = d \<and> d \<notin> set (butlast seg)"

text \<open>
  The postcondition of the loop of \<open>get_next_line_delim\<close>, from the buffer and world
  it starts with to the return code, the line, the buffer and the world it ends with.
  A line is the segment followed by a zero byte, and the segment is the front of the
  bytes still to be returned.
\<close>

definition loop_post ::
  "config \<Rightarrow> int \<Rightarrow> char \<Rightarrow> t_gnl_buffer \<Rightarrow> world \<Rightarrow>
     int \<Rightarrow> char list option \<Rightarrow> t_gnl_buffer \<Rightarrow> world \<Rightarrow> bool" where
  "loop_post cfg fd d buf w rc ln buf' w' \<longleftrightarrow>
     st_inv cfg fd buf' w' \<and> others_kept fd w w' \<and>
     (eof_reached buf \<longrightarrow> eof_reached buf') \<and>
     (rc = GNL_LINE_READ \<or> rc = GNL_EOF \<or> rc = GNL_ERROR) \<and>
     (rc = GNL_LINE_READ \<longrightarrow>
        (case ln of
           None \<Rightarrow> False
         | Some l \<Rightarrow>
             l = butlast l @ [CHR 0x00] \<and> butlast l \<noteq> [] \<and>
             butlast l @ content fd buf' w' = content fd buf w \<and>
             (ends_once d (butlast l) \<or>
              d \<notin> set (butlast l) \<and> len buf' = 0 \<and> eof_reached buf'))) \<and>
     (rc = GNL_EOF \<longrightarrow>
        ln = None \<and> len buf' = 0 \<and> eof_reached buf' \<and>
        content fd buf' w' = content fd buf w \<and>
        (0 < GNL_BUFFER_SIZE cfg \<longrightarrow> content fd buf w = [])) \<and>
     (rc = GNL_ERROR \<longrightarrow>
        ln = None \<and> content fd buf' w' = content fd buf w \<and>
        len buf \<le> len buf' \<and> take (len buf) (unconsumed buf') = unconsumed buf)"

text \<open>
  The same postcondition for a call, on the registry.
\<close>

definition call_post ::
  "config \<Rightarrow> int \<Rightarrow> char \<Rightarrow> registry \<Rightarrow> world \<Rightarrow>
     int \<Rightarrow> char list option \<Rightarrow> registry \<Rightarrow> world \<Rightarrow> bool" where
  "call_post cfg fd d g w rc ln g' w' \<longleftrightarrow>
     handle_inv cfg fd g' w' \<and> others_kept fd w w' \<and>
     (\<forall>fd'. fd' \<noteq> fd \<longrightarrow> g' fd' = g fd') \<and>
     (rc = GNL_LINE_READ \<or> rc = GNL_EOF \<or> rc = GNL_ERROR) \<and>
     (rc = GNL_LINE_READ \<longrightarrow>
        (case ln of
           None \<Rightarrow> False
         | Some l \<Rightarrow>
             l = butlast l @ [CHR 0x00] \<and> butlast l \<noteq> [] \<and>
             butlast l @ handle_content fd g' w' = handle_content fd g w \<and>
             (ends_once d (butlast l) \<or> d \<notin> set (butlast l) \<and> drained fd g'))) \<and>
     (rc = GNL_EOF \<longrightarrow>
        ln = None \<and> drained fd g' \<and> handle_content fd g' w' = handle_content fd g w \<and>
        (0 < GNL_BUFFER_SIZE cfg \<longrightarrow> handle_content fd g w = [])) \<and>
     (rc = GNL_ERROR \<longrightarrow> ln = None \<and> handle_content fd g' w' = handle_content fd g w)"

text \<open>
  The buffer and world reached from given ones by successful refills only.
\<close>

inductive refilled ::
  "config \<Rightarrow> int \<Rightarrow> t_gnl_buffer \<Rightarrow> world \<Rightarrow> t_gnl_buffer \<Rightarrow> world \<Rightarrow> bool"
  for cfg :: config and fd :: int where
  refilled_none: "refilled cfg fd buf w buf w"
| refilled_more:
    "gnl_fill_buffer cfg fd w buf = Some (n, buf1, w1) \<Longrightarrow> \<not> n < 0 \<Longrightarrow>
     refilled cfg fd buf1 w1 buf' w' \<Longrightarrow> refilled cfg fd buf w buf' w'"

subsection \<open>Runs without failures\<close>

text \<open>
  No scripted read fails and no scripted allocation fails.
\<close>

definition calm :: "world \<Rightarrow> bool" where
  "calm w \<longleftrightarrow> ReadError \<notin> set (read_script w) \<and> AllocFail \<notin> set (alloc_script w)"

text \<open>
  The chunk size is positive, and a buffer for \<open>N\<close> buffered bytes stays within what
  the allocator grants: the capacity only doubles when fewer than one chunk is free, so
  it never exceeds \<open>2 * (N + GNL_BUFFER_SIZE)\<close>.
\<close>

definition roomy :: "config \<Rightarrow> nat \<Rightarrow> bool" where
  "roomy cfg N \<longleftrightarrow> 0 < GNL_BUFFER_SIZE cfg \<and> 2 * (N + GNL_BUFFER_SIZE cfg) \<le> SSIZE_MAX"

definition calm_inv :: "config \<Rightarrow> int \<Rightarrow> nat \<Rightarrow> t_gnl_buffer \<Rightarrow> world \<Rightarrow> bool" where
  "calm_inv cfg fd N buf w \<longleftrightarrow>
     calm w \<and> len buf + length (pending w fd) \<le> N \<and>
     size_b buf \<le> 2 * (N + GNL_BUFFER_SIZE cfg)"

definition handle_calm :: "config \<Rightarrow> int \<Rightarrow> nat \<Rightarrow> registry \<Rightarrow> world \<Rightarrow> bool" where
  "handle_calm cfg fd N g w \<longleftrightarrow>
     calm w \<and>
     (case g fd of
        None \<Rightarrow> length (pending w fd) \<le> N
      | Some b \<Rightarrow> len b + length (pending w fd) \<le> N \<and>
                  size_b b \<le> 2 * (N + GNL_BUFFER_SIZE cfg))"

subsection \<open>The segments the specification prescribes\<close>

text \<open>
  These definitions follow the words of the specification, not the code: a stream is cut
  after every occurrence of the delimiter, and the bytes after the last delimiter, if
  there are any, form the final segment. Successive calls return one line for each
  segment, in order, and end-of-stream from then on.
\<close>

fun spec_split :: "char \<Rightarrow> char list \<Rightarrow> char list \<Rightarrow> char list list" where
  "spec_split d acc [] = (if acc = [] then [] else [acc])"
| "spec_split d acc (x # xs) =
     (if x = d then (acc @ [x]) # spec_split d [] xs else spec_split d (acc @ [x]) xs)"

definition spec_segments :: "char \<Rightarrow> char list \<Rightarrow> char list list" where
  "spec_segments d xs = spec_split d [] xs"

definition spec_outcomes :: "char \<Rightarrow> char list \<Rightarrow> nat \<Rightarrow> (int \<times> char list option option) list" where
  "spec_outcomes d xs n =
     take n (map (\<lambda>s. (GNL_LINE_READ, Some (Some (s @ [CHR 0x00])))) (spec_segments d xs) @
             replicate n (GNL_EOF, Some None))"

subsection \<open>Concrete inputs\<close>

text \<open>
  The inputs at which the theorems below are evaluated: a configuration with a chunk
  size of 4 and one with a chunk size of 1, worlds whose descriptor 3 holds a short stream,
  and a few buffers.
\<close>

definition demo_config :: config where
  "demo_config = \<lparr>GNL_BUFFER_SIZE = 4, GNL_MAX_FD = 1024\<rparr>"

definition unit_config :: config where
  "unit_config = \<lparr>GNL_BUFFER_SIZE = 1, GNL_MAX_FD = 1024\<rparr>"

definition demo_world :: world where
  "demo_world = \<lparr>pending = (\<lambda>_. [])(3 := ''a,b,,c''), read_script = [], alloc_script = []\<rparr>"

definition demo_outs :: "(int \<times> char list option option) list" where
  "demo_outs =
     [(1, Some (Some [CHR ''a'', CHR '','', CHR 0x00])),
      (1, Some (Some [CHR ''b'', CHR '','', CHR 0x00])),
      (1, Some (Some [CHR '','', CHR 0x00])),
      (1, Some (Some [CHR ''c'', CHR 0x00])),
      (0, Some None)]"

definition demo_buffer :: t_gnl_buffer where
  "demo_buffer = \<lparr>data = ''b,,c'', size_b = 4, len = 4, eof_reached = False\<rparr>"

definition demo_registry :: registry where
  "demo_registry = (\<lambda>_. None)(3 \<mapsto> demo_buffer)"

definition quiet_world :: world where
  "quiet_world = \<lparr>pending = (\<lambda>_. []), read_script = [], alloc_script = []\<rparr>"

definition fresh_buffer :: t_gnl_buffer where
  "fresh_buffer = \<lparr>data = replicate 4 (CHR 0x00), size_b = 4, len = 0, eof_reached = False\<rparr>"

definition stuck_world :: world where
  "stuck_world =
     \<lparr>pending = (\<lambda>_. [])(3 := ''abcdefgh''), read_script = [], alloc_script = [AllocFail]\<rparr>"

definition half_read_buffer :: t_gnl_buffer where
  "half_read_buffer = \<lparr>data = ''abcd'', size_b = 4, len = 4, eof_reached = False\<rparr>"

definition empty_buffer :: t_gnl_buffer where
  "empty_buffer = \<lparr>data = [], size_b = 0, len = 0, eof_reached = False\<rparr>"

section \<open>Termination of the reading loop\<close>

text \<open>
  Every round of the loop that goes on has either taken bytes from the descriptor or
  switched \<open>eof_reached\<close> on, so the loop ends.
\<close>

lemma next_alloc_pending: "next_alloc w n = (r, w') \<Longrightarrow> pending w' = pending w \<and> read_script w' = read_script w"
  by (auto simp: next_alloc_def split: list.splits alloc_event.splits)

lemma sys_realloc_pending: "sys_realloc w old n = (r, w') \<Longrightarrow> pending w' = pending w \<and> read_script w' = read_script w"
  by (auto simp: sys_realloc_def split: prod.splits option.splits dest: next_alloc_pending)

lemma ensure_pending: "gnl_ensure_capacity w buf n = Some (rc, buf', w') \<Longrightarrow> pending w' = pending w \<and> read_script w' = read_script w \<and> eof_reached buf' = eof_reached buf"
  by (auto simp: gnl_ensure_capacity_def split: if_splits prod.splits option.splits dest: sys_realloc_pending)

lemma sys_read_shrinks:
  "sys_read w fd n = (Some chunk, w') \<Longrightarrow>
     length (pending w' fd) + length chunk = length (pending w fd)"
  by (auto simp: sys_read_def deliver_def split: list.splits read_event.splits)

lemma SIZE_MOD_pos: "0 < SIZE_MOD"
  by (simp add: SIZE_MOD_def)

lemma to_ssize_0_iff: "to_ssize n = 0 \<longleftrightarrow> n mod SIZE_MOD = 0"
  using mod_less_divisor [OF SIZE_MOD_pos, of n] by (auto simp: to_ssize_def)

lemma fill_cases:
  assumes "gnl_fill_buffer cfg fd w buf = Some (n, buf', w')"
  obtains
    (grow_fail) rc where "gnl_ensure_capacity w buf (GNL_BUFFER_SIZE cfg) = Some (rc, buf', w')"
      "rc < 0" "n = - 1"
  | (read_fail) rc w1 where "gnl_ensure_capacity w buf (GNL_BUFFER_SIZE cfg) = Some (rc, buf', w1)"
      "\<not> rc < 0" "sys_read w1 fd (GNL_BUFFER_SIZE cfg) = (None, w')" "n = - 1"
  | (ok) rc buf1 w1 chunk where
      "gnl_ensure_capacity w buf (GNL_BUFFER_SIZE cfg) = Some (rc, buf1, w1)"
      "\<not> rc < 0" "sys_read w1 fd (GNL_BUFFER_SIZE cfg) = (Some chunk, w')"
      "n = to_ssize (length chunk)" "buf' = filled buf1 chunk"
proof -
  obtain rc buf1 w1 where e: "gnl_ensure_capacity w buf (GNL_BUFFER_SIZE cfg) = Some (rc, buf1, w1)"
    using assms by (auto simp: gnl_fill_buffer_def split: option.splits)
  show thesis
  proof (cases "rc < 0")
    case True
    with e assms grow_fail show ?thesis by (simp add: gnl_fill_buffer_def)
  next
    case False
    obtain r w2 where rd: "sys_read w1 fd (GNL_BUFFER_SIZE cfg) = (r, w2)"
      by (cases "sys_read w1 fd (GNL_BUFFER_SIZE cfg)")
    show ?thesis
    proof (cases r)
      case None
      with e False rd assms read_fail show ?thesis by (simp add: gnl_fill_buffer_def)
    next
      case (Some chunk)
      with e False rd assms have "w' = w2" "n = to_ssize (length chunk)" "buf' = filled buf1 chunk"
        by (auto simp: gnl_fill_buffer_def filled_def Let_def)
      with e False rd Some ok show ?thesis by simp
    qed
  qed
qed

lemma fill_measure:
  assumes "gnl_fill_buffer cfg fd w buf = Some (n, buf', w')" "\<not> n < 0" "\<not> eof_reached buf"
  shows "length (pending w' fd) + (if eof_reached buf' then 0 else 1)
           < length (pending w fd) + (if eof_reached buf then 0 else 1)"
  using assms(1)
proof (cases rule: fill_cases)
  case (ok rc buf1 w1 chunk)
  from ensure_pending [OF ok(1)] sys_read_shrinks [OF ok(3)]
  have p: "length (pending w' fd) + length chunk = length (pending w fd)"
    and e: "eof_reached buf1 = eof_reached buf" by simp_all
  have e': "eof_reached buf' \<longleftrightarrow> eof_reached buf1 \<or> n = 0"
    using ok(4,5) by (simp add: filled_def Let_def)
  show ?thesis
  proof (cases "n = 0")
    case True
    with p e e' assms(3) show ?thesis by simp
  next
    case False
    with ok(4) have "chunk \<noteq> []" by (auto simp: to_ssize_0_iff)
    then have "0 < length chunk" by simp
    with p have "length (pending w' fd) < length (pending w fd)" by linarith
    with e e' assms(3) False show ?thesis by simp
  qed
qed (use assms(2) in simp_all)

termination gnl_loop
  apply (relation "measure (\<lambda>(cfg, fd, delim, buf, w). length (pending w fd) + (if eof_reached buf then 0 else 1))")
   apply simp
  apply (auto dest: fill_measure)
  done

declare gnl_loop.simps [simp del]

section \<open>Auxiliary facts\<close>

lemma SSIZE_MAX_less: "SSIZE_MAX < SIZE_MOD" "2 * SSIZE_MAX < SIZE_MOD" "Suc SSIZE_MAX < SIZE_MOD"
  by (simp_all add: SIZE_MOD_def SSIZE_MAX_def)

lemma size_sub_eq:
  assumes "b \<le> a" "a < SIZE_MOD"
  shows "size_sub a b = a - b"
proof -
  have e: "a + SIZE_MOD - b = SIZE_MOD + (a - b)"
    using assms(1) by linarith
  have "size_sub a b = (a + SIZE_MOD - b) mod SIZE_MOD"
    using assms by (simp add: size_sub_def)
  also have "\<dots> = (SIZE_MOD + (a - b)) mod SIZE_MOD"
    by (simp only: e)
  also have "\<dots> = (a - b) mod SIZE_MOD"
    by (rule mod_add_self1)
  also have "\<dots> = a - b"
    using assms by simp
  finally show ?thesis .
qed

lemma size_add_eq: "a + b < SIZE_MOD \<Longrightarrow> size_add a b = a + b"
  by (simp add: size_add_def)

lemma size_mul_eq: "a * b < SIZE_MOD \<Longrightarrow> size_mul a b = a * b"
  by (simp add: size_mul_def)

lemma to_ssize_eq: "n \<le> SSIZE_MAX \<Longrightarrow> to_ssize n = int n"
  using SSIZE_MAX_less(1) by (simp add: to_ssize_def)

lemma of_ssize_int: "n < SIZE_MOD \<Longrightarrow> of_ssize (int n) = n"
  by (simp add: of_ssize_def flip: zmod_int)

lemma next_alloc_Some: "next_alloc w n = (Some c, w') \<Longrightarrow> n \<le> SSIZE_MAX"
  by (auto simp: next_alloc_def split: list.splits alloc_event.splits if_splits)

lemma sys_malloc_cases:
  assumes "sys_malloc w n = (r, w')"
  obtains (fail) "r = None" "pending w' = pending w" "read_script w' = read_script w"
  | (ok) c where "r = Some (replicate n c)" "n \<le> SSIZE_MAX"
      "pending w' = pending w" "read_script w' = read_script w"
  using assms
  by (auto simp: sys_malloc_def split: prod.splits option.splits
      dest: next_alloc_pending next_alloc_Some)

lemma sys_realloc_cases:
  assumes "sys_realloc w old n = (r, w')"
  obtains (fail) "r = None" "pending w' = pending w" "read_script w' = read_script w"
  | (ok) c where "r = Some (take n old @ replicate (n - length old) c)" "n \<le> SSIZE_MAX"
      "pending w' = pending w" "read_script w' = read_script w"
  using assms
  by (auto simp: sys_realloc_def split: prod.splits option.splits
      dest: next_alloc_pending next_alloc_Some)

lemma grow_loop_done: "needed \<le> size_sub s l \<Longrightarrow> grow_loop s l needed = Some s"
  by (subst grow_loop.simps) simp

lemma grow_loop_step:
  "size_sub s l < needed \<Longrightarrow> grow_loop s l needed = grow_loop (size_mul s 2) l needed"
  by (subst grow_loop.simps) simp

lemma grow_loop_once:
  assumes "l \<le> s" "s \<le> SSIZE_MAX" "needed \<le> s" "s - l < needed"
  shows "grow_loop s l needed = Some (2 * s)"
proof -
  from assms SSIZE_MAX_less have s: "s < SIZE_MOD" "s * 2 < SIZE_MOD" by simp_all
  with assms have "size_sub s l < needed" by (simp add: size_sub_eq)
  then have "grow_loop s l needed = grow_loop (s * 2) l needed"
    using s by (simp add: grow_loop_step size_mul_eq)
  also have "size_sub (s * 2) l = s * 2 - l" using assms s by (simp add: size_sub_eq)
  then have "grow_loop (s * 2) l needed = Some (s * 2)"
    using assms by (intro grow_loop_done) simp
  finally show ?thesis by (simp add: mult.commute)
qed

lemma ensure_cases:
  assumes "buf_inv cfg buf"
  obtains
    (fits) "GNL_BUFFER_SIZE cfg \<le> size_b buf - len buf"
      "gnl_ensure_capacity w buf (GNL_BUFFER_SIZE cfg) = Some (0, buf, w)"
  | (fail) w' where "size_b buf - len buf < GNL_BUFFER_SIZE cfg"
      "sys_realloc w (data buf) (2 * size_b buf) = (None, w')"
      "gnl_ensure_capacity w buf (GNL_BUFFER_SIZE cfg) = Some (- 1, buf, w')"
  | (grown) w' new_data where "size_b buf - len buf < GNL_BUFFER_SIZE cfg"
      "sys_realloc w (data buf) (2 * size_b buf) = (Some new_data, w')"
      "gnl_ensure_capacity w buf (GNL_BUFFER_SIZE cfg) =
         Some (0, buf\<lparr>data := new_data, size_b := 2 * size_b buf\<rparr>, w')"
proof (cases "GNL_BUFFER_SIZE cfg \<le> size_b buf - len buf")
  case True
  moreover from assms SSIZE_MAX_less have "size_sub (size_b buf) (len buf) = size_b buf - len buf"
    by (intro size_sub_eq) (simp_all add: buf_inv_def)
  ultimately show ?thesis using fits by (simp add: gnl_ensure_capacity_def)
next
  case False
  from assms SSIZE_MAX_less have sub: "size_sub (size_b buf) (len buf) = size_b buf - len buf"
    by (intro size_sub_eq) (simp_all add: buf_inv_def)
  from assms False have g: "grow_loop (size_b buf) (len buf) (GNL_BUFFER_SIZE cfg) = Some (2 * size_b buf)"
    by (intro grow_loop_once) (simp_all add: buf_inv_def)
  obtain r w' where r: "sys_realloc w (data buf) (2 * size_b buf) = (r, w')"
    by (cases "sys_realloc w (data buf) (2 * size_b buf)")
  show ?thesis
  proof (cases r)
    case None
    with False sub g r fail show ?thesis by (simp add: gnl_ensure_capacity_def)
  next
    case (Some new_data)
    with False sub g r grown show ?thesis by (simp add: gnl_ensure_capacity_def)
  qed
qed

lemma ensure_post:
  assumes "buf_inv cfg buf" "gnl_ensure_capacity w buf (GNL_BUFFER_SIZE cfg) = Some (rc, buf', w')"
  shows "pending w' = pending w" "read_script w' = read_script w"
    "buf_inv cfg buf'" "unconsumed buf' = unconsumed buf" "len buf' = len buf"
    "eof_reached buf' = eof_reached buf" "rc = 0 \<or> rc = - 1" "rc < 0 \<Longrightarrow> buf' = buf"
    "\<not> rc < 0 \<Longrightarrow> GNL_BUFFER_SIZE cfg \<le> size_b buf' - len buf'"
proof -
  have "pending w' = pending w \<and> read_script w' = read_script w \<and>
    buf_inv cfg buf' \<and> unconsumed buf' = unconsumed buf \<and> len buf' = len buf \<and>
    eof_reached buf' = eof_reached buf \<and> (rc = 0 \<or> rc = - 1) \<and> (rc < 0 \<longrightarrow> buf' = buf) \<and>
    (\<not> rc < 0 \<longrightarrow> GNL_BUFFER_SIZE cfg \<le> size_b buf' - len buf')"
    using assms(1)
  proof (cases rule: ensure_cases [where w = w])
    case fits
    with assms show ?thesis by simp
  next
    case (fail w1)
    with assms show ?thesis by (auto elim!: sys_realloc_cases)
  next
    case (grown w1 new_data)
    from grown(2) show ?thesis
    proof (cases rule: sys_realloc_cases)
      case fail
      then show ?thesis by simp
    next
      case (ok c)
      with grown assms show ?thesis
        by (auto simp: buf_inv_def unconsumed_def)
    qed
  qed
  then show "pending w' = pending w" "read_script w' = read_script w"
    "buf_inv cfg buf'" "unconsumed buf' = unconsumed buf" "len buf' = len buf"
    "eof_reached buf' = eof_reached buf" "rc = 0 \<or> rc = - 1" "rc < 0 \<Longrightarrow> buf' = buf"
    "\<not> rc < 0 \<Longrightarrow> GNL_BUFFER_SIZE cfg \<le> size_b buf' - len buf'"
    by auto
qed

lemma buf_inv_len: "buf_inv cfg buf \<Longrightarrow> len buf \<le> SSIZE_MAX" "buf_inv cfg buf \<Longrightarrow> len buf \<le> length (data buf)"
  by (simp_all add: buf_inv_def)

lemma length_unconsumed: "buf_inv cfg buf \<Longrightarrow> length (unconsumed buf) = len buf"
  by (simp add: buf_inv_def unconsumed_def)

lemma find_delim_absent: "d \<notin> set (unconsumed buf) \<Longrightarrow> gnl_find_delim buf d = - 1"
  by (simp add: gnl_find_delim_def memchr_def unconsumed_def)

lemma find_delim_found:
  assumes "buf_inv cfg buf" "d \<in> set (unconsumed buf)"
  shows "gnl_find_delim buf d = int (length (takeWhile (\<lambda>x. x \<noteq> d) (unconsumed buf)))"
proof -
  let ?p = "length (takeWhile (\<lambda>x. x \<noteq> d) (unconsumed buf))"
  have "?p \<le> length (unconsumed buf)" by (rule length_takeWhile_le)
  with assms(1) have "?p \<le> SSIZE_MAX"
    using length_unconsumed [OF assms(1)] buf_inv_len(1) [OF assms(1)] by simp
  moreover from assms(2) have "len buf \<noteq> 0"
    by (cases "len buf = 0") (simp_all add: unconsumed_def)
  ultimately show ?thesis using assms(2)
    by (simp add: gnl_find_delim_def memchr_def unconsumed_def to_ssize_eq)
qed

lemma takeWhile_pos_less:
  "d \<in> set xs \<Longrightarrow> length (takeWhile (\<lambda>x. x \<noteq> d) xs) < length xs"
  by (induction xs) auto

lemma extract_cases:
  assumes "buf_inv cfg buf" "p < len buf"
  obtains
    (fail) w' where "gnl_extract_line w buf p = (None, buf, w')"
      "pending w' = pending w" "read_script w' = read_script w"
  | (ok) buf' w' where
      "gnl_extract_line w buf p = (Some (take (Suc p) (unconsumed buf) @ [CHR 0x00]), buf', w')"
      "unconsumed buf' = drop (Suc p) (unconsumed buf)" "len buf' = len buf - Suc p"
      "buf_inv cfg buf'" "eof_reached buf' = eof_reached buf" "size_b buf' = size_b buf"
      "pending w' = pending w" "read_script w' = read_script w"
proof -
  from assms SSIZE_MAX_less have b: "Suc p \<le> len buf" "len buf \<le> SSIZE_MAX"
    "len buf \<le> length (data buf)" "len buf < SIZE_MOD" "Suc (Suc p) < SIZE_MOD"
    by (simp_all add: buf_inv_def)
  then have l1: "size_add p 1 = Suc p" and l2: "size_add (Suc p) 1 = Suc (Suc p)"
    by (simp_all add: size_add_eq)
  from b have rem: "size_sub (len buf) (Suc p) = len buf - Suc p"
    by (intro size_sub_eq) simp_all
  obtain r w' where m: "sys_malloc w (Suc (Suc p)) = (r, w')"
    by (cases "sys_malloc w (Suc (Suc p))")
  from m show thesis
  proof (cases rule: sys_malloc_cases)
    case fail
    with m l1 l2 have "gnl_extract_line w buf p = (None, buf, w')"
      by (simp add: gnl_extract_line_def)
    with fail show ?thesis by (intro that(1) [of w']) simp_all
  next
    case (ok c)
    let ?seg = "take (Suc p) (data buf)"
    let ?rem = "len buf - Suc p"
    let ?moved = "if ?rem > 0
                  then mem_write (data buf) 0 (take ?rem (drop (Suc p) (data buf)))
                  else data buf"
    let ?buf' = "buf\<lparr>data := ?moved, len := ?rem\<rparr>"
    from b have ls: "length ?seg = Suc p" by simp
    have dr: "drop (Suc p) (replicate (Suc (Suc p)) c) = [c]"
      by (simp only: drop_replicate) simp
    have "mem_write (replicate (Suc (Suc p)) c) 0 ?seg = ?seg @ [c]"
      by (simp only: mem_write_def take_0 append_Nil ls add_0 dr)
    then have "(mem_write (replicate (Suc (Suc p)) c) 0 ?seg)[Suc p := CHR 0x00] = ?seg @ [CHR 0x00]"
      using ls by (simp add: list_update_append)
    moreover from b have "?seg = take (Suc p) (unconsumed buf)"
      by (simp add: unconsumed_def min_def)
    ultimately have e: "gnl_extract_line w buf p =
        (Some (take (Suc p) (unconsumed buf) @ [CHR 0x00]), ?buf', w')"
      using m ok l1 l2 rem by (simp add: gnl_extract_line_def Let_def)
    from b have lm: "length (take ?rem (drop (Suc p) (data buf))) = ?rem" by simp
    have len_moved: "length ?moved = length (data buf)"
      using b by (simp add: mem_write_def)
    have "take ?rem ?moved = take ?rem (drop (Suc p) (data buf))"
      using lm by (simp add: mem_write_def)
    also have "\<dots> = drop (Suc p) (take (len buf) (data buf))"
      using b by (simp add: drop_take)
    finally have u: "unconsumed ?buf' = drop (Suc p) (unconsumed buf)"
      by (simp add: unconsumed_def)
    have inv: "buf_inv cfg ?buf'"
      using assms(1) len_moved unfolding buf_inv_def by auto
    from e u inv ok show ?thesis by (intro that(2) [of ?buf' w']) simp_all
  qed
qed

lemma sys_read_cases:
  assumes "sys_read w fd n = (r, w')"
  obtains (fail) "r = None" "pending w' = pending w" "alloc_script w' = alloc_script w"
  | (ok) m where "m \<le> n" "0 < n \<Longrightarrow> 0 < m" "r = Some (take m (pending w fd))"
      "pending w' = (pending w)(fd := drop m (pending w fd))"
      "alloc_script w' = alloc_script w"
proof (cases "read_script w")
  case Nil
  with assms have "r = Some (take n (pending w fd))"
    "pending w' = (pending w)(fd := drop n (pending w fd))" "alloc_script w' = alloc_script w"
    by (auto simp: sys_read_def deliver_def)
  then show ?thesis by (intro ok [of n]) simp_all
next
  case (Cons e es)
  show ?thesis
  proof (cases e)
    case ReadError
    with Cons assms fail show ?thesis by (auto simp: sys_read_def)
  next
    case (ReadShort k)
    with Cons assms have "r = Some (take (min n (Suc k)) (pending w fd))"
      "pending w' = (pending w)(fd := drop (min n (Suc k)) (pending w fd))"
      "alloc_script w' = alloc_script w"
      by (auto simp: sys_read_def deliver_def)
    then show ?thesis by (intro ok [of "min n (Suc k)"]) simp_all
  qed
qed

lemma filled_post:
  assumes "buf_inv cfg buf1" "GNL_BUFFER_SIZE cfg \<le> size_b buf1 - len buf1"
    "length chunk \<le> GNL_BUFFER_SIZE cfg"
  shows "buf_inv cfg (filled buf1 chunk)"
    "unconsumed (filled buf1 chunk) = unconsumed buf1 @ chunk"
    "len (filled buf1 chunk) = len buf1 + length chunk"
    "eof_reached (filled buf1 chunk) \<longleftrightarrow> eof_reached buf1 \<or> chunk = []"
    "to_ssize (length chunk) = int (length chunk)"
proof -
  from assms SSIZE_MAX_less have b: "len buf1 + length chunk \<le> size_b buf1"
    "length (data buf1) = size_b buf1" "size_b buf1 \<le> SSIZE_MAX" "length chunk \<le> SSIZE_MAX"
    "len buf1 + length chunk < SIZE_MOD" "length chunk < SIZE_MOD"
    by (auto simp: buf_inv_def)
  then show ts: "to_ssize (length chunk) = int (length chunk)"
    by (simp add: to_ssize_eq)
  have l: "len (filled buf1 chunk) = len buf1 + length chunk"
    using b by (simp add: filled_def Let_def ts of_ssize_int size_add_eq)
  have d: "data (filled buf1 chunk) = mem_write (data buf1) (len buf1) chunk"
    by (simp add: filled_def Let_def)
  have s: "size_b (filled buf1 chunk) = size_b buf1"
    by (simp add: filled_def Let_def)
  show "len (filled buf1 chunk) = len buf1 + length chunk" by (rule l)
  show "unconsumed (filled buf1 chunk) = unconsumed buf1 @ chunk"
    using b by (simp add: unconsumed_def l d mem_write_def)
  show "buf_inv cfg (filled buf1 chunk)"
    using assms(1) b by (simp add: buf_inv_def l d s mem_write_def)
  show "eof_reached (filled buf1 chunk) \<longleftrightarrow> eof_reached buf1 \<or> chunk = []"
    by (simp add: filled_def Let_def ts)
qed

lemma fill_total:
  assumes "buf_inv cfg buf"
  shows "gnl_fill_buffer cfg fd w buf \<noteq> None"
  using assms
  by (cases rule: ensure_cases [where w = w])
    (auto simp: gnl_fill_buffer_def Let_def split: prod.splits option.splits)

lemma fill_fail_post:
  assumes "buf_inv cfg buf" "gnl_fill_buffer cfg fd w buf = Some (n, buf', w')" "n < 0"
  shows "n = - 1 \<and> buf_inv cfg buf' \<and> unconsumed buf' = unconsumed buf \<and> len buf' = len buf \<and>
    eof_reached buf' = eof_reached buf \<and> pending w' = pending w"
  using assms(2)
proof (cases rule: fill_cases)
  case (grow_fail rc)
  from ensure_post [OF assms(1) grow_fail(1)] grow_fail(3) show ?thesis by simp
next
  case (read_fail rc w1)
  from read_fail(3) have "pending w' = pending w1" by (cases rule: sys_read_cases) simp_all
  with ensure_post [OF assms(1) read_fail(1)] read_fail(4) show ?thesis by simp
next
  case (ok rc buf1 w1 chunk)
  from ensure_post [OF assms(1) ok(1)] ok(2)
  have e: "buf_inv cfg buf1" "GNL_BUFFER_SIZE cfg \<le> size_b buf1 - len buf1" by simp_all
  from ok(3) have "length chunk \<le> GNL_BUFFER_SIZE cfg"
    by (cases rule: sys_read_cases) auto
  from filled_post(5) [OF e this] ok(4) assms(3) show ?thesis by simp
qed

lemma fill_ok_post:
  assumes "buf_inv cfg buf" "gnl_fill_buffer cfg fd w buf = Some (n, buf', w')" "\<not> n < 0"
  shows "buf_inv cfg buf' \<and> others_kept fd w w' \<and>
    unconsumed buf' @ pending w' fd = unconsumed buf @ pending w fd \<and>
    (eof_reached buf' \<longleftrightarrow> eof_reached buf \<or> n = 0) \<and>
    (n = 0 \<longrightarrow> 0 < GNL_BUFFER_SIZE cfg \<longrightarrow> pending w' fd = []) \<and>
    (n = 0 \<longrightarrow> unconsumed buf' = unconsumed buf) \<and>
    length (pending w' fd) \<le> length (pending w fd) \<and>
    len buf' + length (pending w' fd) = len buf + length (pending w fd)"
  using assms(2)
proof (cases rule: fill_cases)
  case (ok rc buf1 w1 chunk)
  note e = ensure_post [OF assms(1) ok(1)]
  from e ok(2) have e': "buf_inv cfg buf1" "GNL_BUFFER_SIZE cfg \<le> size_b buf1 - len buf1"
    by simp_all
  from ok(3) obtain m where m: "m \<le> GNL_BUFFER_SIZE cfg" "0 < GNL_BUFFER_SIZE cfg \<Longrightarrow> 0 < m"
    "chunk = take m (pending w1 fd)" "pending w' = (pending w1)(fd := drop m (pending w1 fd))"
    by (cases rule: sys_read_cases) auto
  from m have lc: "length chunk \<le> GNL_BUFFER_SIZE cfg" by simp
  note f = filled_post [OF e' lc]
  have n: "n = int (length chunk)" using ok(4) f(5) by simp
  have "unconsumed buf' @ pending w' fd = unconsumed buf @ pending w fd"
    using f(2) e(1,4) m(3,4) ok(5) by simp
  moreover have "others_kept fd w w'"
    using e(1) m(4) by (simp add: others_kept_def)
  moreover have "eof_reached buf' \<longleftrightarrow> eof_reached buf \<or> n = 0"
    using f(4) e(6) ok(5) n by simp
  moreover have "n = 0 \<longrightarrow> 0 < GNL_BUFFER_SIZE cfg \<longrightarrow> pending w' fd = []"
    using n m by auto
  moreover have "n = 0 \<longrightarrow> unconsumed buf' = unconsumed buf"
    using n f(2) e(4) ok(5) by auto
  moreover have "length (pending w' fd) \<le> length (pending w fd)"
    using m(4) e(1) by simp
  moreover have "len buf' + length (pending w' fd) = len buf + length (pending w fd)"
    using m(3,4) e(1,5) f(3) ok(5) by simp
  ultimately show ?thesis using f(1) ok(5) by simp
qed (use assms(3) in simp_all)

lemma others_kept_refl: "others_kept fd w w"
  by (simp add: others_kept_def)

lemma others_kept_pending: "pending w' = pending w \<Longrightarrow> others_kept fd w w'"
  by (simp add: others_kept_def)

lemma others_kept_trans: "others_kept fd w w1 \<Longrightarrow> others_kept fd w1 w' \<Longrightarrow> others_kept fd w w'"
  by (simp add: others_kept_def)

lemma take_first_delim:
  "d \<in> set xs \<Longrightarrow>
     take (Suc (length (takeWhile (\<lambda>x. x \<noteq> d) xs))) xs = takeWhile (\<lambda>x. x \<noteq> d) xs @ [d]"
  by (induction xs) auto

lemma ends_once_first:
  "ends_once d (takeWhile (\<lambda>x. x \<noteq> d) xs @ [d])"
  by (auto simp: ends_once_def dest: set_takeWhileD)

lemma gnl_loop_found:
  assumes "buf_inv cfg buf" "d \<in> set (unconsumed buf)"
  shows "gnl_loop cfg fd d buf w =
     (case gnl_extract_line w buf (length (takeWhile (\<lambda>x. x \<noteq> d) (unconsumed buf))) of
        (line, buf', w') \<Rightarrow>
          Some (if line \<noteq> None then GNL_LINE_READ else GNL_ERROR, line, buf', w'))"
proof -
  let ?p = "length (takeWhile (\<lambda>x. x \<noteq> d) (unconsumed buf))"
  have "?p < length (unconsumed buf)" using assms(2) by (rule takeWhile_pos_less)
  with assms(1) SSIZE_MAX_less have "?p < SIZE_MOD"
    using length_unconsumed [OF assms(1)] buf_inv_len(1) [OF assms(1)] by simp
  then have "of_ssize (int ?p) = ?p" by (rule of_ssize_int)
  then show ?thesis
    by (subst gnl_loop.simps) (simp add: find_delim_found [OF assms] Let_def)
qed

lemma gnl_loop_absent:
  assumes "d \<notin> set (unconsumed buf)"
  shows "gnl_loop cfg fd d buf w =
     (if eof_reached buf then
        (if len buf > 0 then
           (case gnl_extract_line w buf (size_sub (len buf) 1) of
              (line, buf', w') \<Rightarrow>
                Some (if line \<noteq> None then GNL_LINE_READ else GNL_ERROR, line, buf', w'))
         else Some (GNL_EOF, None, buf, w))
      else
        (case gnl_fill_buffer cfg fd w buf of
           None \<Rightarrow> None
         | Some (bytes_read, buf', w') \<Rightarrow>
             if bytes_read < 0 then Some (GNL_ERROR, None, buf', w')
             else gnl_loop cfg fd d buf' w'))"
  by (subst gnl_loop.simps) (simp add: find_delim_absent [OF assms] Let_def)

lemma butlast_snoc2: "butlast (xs @ [a, b]) = xs @ [a]"
  by (simp add: butlast_append)

lemma loop_post_found:
  assumes "st_inv cfg fd buf w" "d \<in> set (unconsumed buf)"
    "gnl_loop cfg fd d buf w = Some (rc, ln, buf', w')"
  shows "loop_post cfg fd d buf w rc ln buf' w'"
proof -
  let ?u = "unconsumed buf"
  let ?p = "length (takeWhile (\<lambda>x. x \<noteq> d) ?u)"
  from assms(1) have inv: "buf_inv cfg buf" by (simp add: st_inv_def)
  have "?p < length ?u" using assms(2) by (rule takeWhile_pos_less)
  then have p: "?p < len buf" using length_unconsumed [OF inv] by simp
  note loop = assms(3) [unfolded gnl_loop_found [OF inv assms(2)]]
  from inv p show ?thesis
  proof (cases rule: extract_cases [where w = w])
    case (fail w1)
    with loop have "rc = GNL_ERROR" "ln = None" "buf' = buf" "w' = w1" by simp_all
    with fail assms(1) length_unconsumed [OF inv] show ?thesis
      by (simp add: loop_post_def st_inv_def content_def others_kept_pending
          GNL_EOF_def GNL_LINE_READ_def GNL_ERROR_def)
  next
    case (ok buf1 w1)
    let ?seg = "takeWhile (\<lambda>x. x \<noteq> d) ?u @ [d]"
    from ok(1) loop have r: "rc = GNL_LINE_READ" "ln = Some (take (Suc ?p) ?u @ [CHR 0x00])"
      "buf' = buf1" "w' = w1" by simp_all
    have seg: "take (Suc ?p) ?u = ?seg" using assms(2) by (rule take_first_delim)
    have "?seg @ content fd buf1 w1 = content fd buf w"
      using ok(2,7) append_take_drop_id [of "Suc ?p" ?u]
      by (simp add: content_def flip: seg)
    moreover have "st_inv cfg fd buf1 w1" using assms(1) ok by (simp add: st_inv_def)
    moreover have "ends_once d ?seg" by (rule ends_once_first)
    ultimately show ?thesis using r ok(5,7)
      by (simp add: loop_post_def seg others_kept_pending butlast_snoc2
          GNL_EOF_def GNL_LINE_READ_def GNL_ERROR_def)
  qed
qed

lemma loop_post_rest:
  assumes "st_inv cfg fd buf w" "d \<notin> set (unconsumed buf)" "eof_reached buf" "len buf > 0"
    "gnl_loop cfg fd d buf w = Some (rc, ln, buf', w')"
  shows "loop_post cfg fd d buf w rc ln buf' w'"
proof -
  let ?u = "unconsumed buf"
  from assms(1) have inv: "buf_inv cfg buf" by (simp add: st_inv_def)
  from inv assms(4) SSIZE_MAX_less have sub: "size_sub (len buf) 1 = len buf - 1"
    by (intro size_sub_eq) (simp_all add: buf_inv_def)
  from assms(4) have p: "len buf - 1 < len buf" "Suc (len buf - 1) = len buf" by simp_all
  note loop = assms(5) [unfolded gnl_loop_absent [OF assms(2)] sub]
  from inv p(1) show ?thesis
  proof (cases rule: extract_cases [where w = w])
    case (fail w1)
    with loop assms(3,4) have "rc = GNL_ERROR" "ln = None" "buf' = buf" "w' = w1" by simp_all
    with fail assms(1) length_unconsumed [OF inv] show ?thesis
      by (simp add: loop_post_def st_inv_def content_def others_kept_pending
          GNL_EOF_def GNL_LINE_READ_def GNL_ERROR_def)
  next
    case (ok buf1 w1)
    from ok(1) loop assms(3,4) p(2)
    have r: "rc = GNL_LINE_READ" "ln = Some (take (len buf) ?u @ [CHR 0x00])"
      "buf' = buf1" "w' = w1" by simp_all
    have seg: "take (len buf) ?u = ?u" using length_unconsumed [OF inv] by simp
    have u1: "unconsumed buf1 = []" using ok(2) p(2) length_unconsumed [OF inv] by simp
    have "?u \<noteq> []" using assms(4) length_unconsumed [OF inv] by auto
    moreover have "?u @ content fd buf1 w1 = content fd buf w"
      using u1 ok(7) by (simp add: content_def)
    moreover have "st_inv cfg fd buf1 w1" using assms(1) ok by (simp add: st_inv_def)
    moreover have "len buf1 = 0" using ok(3) p(2) by simp
    ultimately show ?thesis using r ok(5,7) assms(2,3)
      by (simp add: loop_post_def seg others_kept_pending butlast_snoc2
          GNL_EOF_def GNL_LINE_READ_def GNL_ERROR_def)
  qed
qed

lemma gnl_loop_drained:
  assumes "len buf = 0" "eof_reached buf"
  shows "gnl_loop cfg fd d buf w = Some (GNL_EOF, None, buf, w)"
proof -
  from assms(1) have "d \<notin> set (unconsumed buf)" by (simp add: unconsumed_def)
  from gnl_loop_absent [OF this] assms show ?thesis by simp
qed

lemma loop_post_drained:
  assumes "st_inv cfg fd buf w" "len buf = 0" "eof_reached buf"
  shows "loop_post cfg fd d buf w GNL_EOF None buf w"
  using assms
  by (simp add: loop_post_def st_inv_def content_def unconsumed_def others_kept_refl
      GNL_EOF_def GNL_LINE_READ_def GNL_ERROR_def)

lemma loop_post_fill_fail:
  assumes "st_inv cfg fd buf w" "gnl_fill_buffer cfg fd w buf = Some (n, buf', w')" "n < 0"
  shows "loop_post cfg fd d buf w GNL_ERROR None buf' w'"
proof -
  from assms(1) have inv: "buf_inv cfg buf" by (simp add: st_inv_def)
  from fill_fail_post [OF inv assms(2,3)] assms(1) length_unconsumed [OF inv] show ?thesis
    by (simp add: loop_post_def st_inv_def content_def others_kept_pending
        GNL_EOF_def GNL_LINE_READ_def GNL_ERROR_def)
qed

lemma loop_post_fill_step:
  assumes "st_inv cfg fd buf w" "\<not> eof_reached buf"
    "gnl_fill_buffer cfg fd w buf = Some (n, buf1, w1)" "\<not> n < 0"
    "loop_post cfg fd d buf1 w1 rc ln buf' w'"
  shows "loop_post cfg fd d buf w rc ln buf' w'"
proof -
  from assms(1) have inv: "buf_inv cfg buf" by (simp add: st_inv_def)
  note f = fill_ok_post [OF inv assms(3,4)]
  from f have c: "content fd buf1 w1 = content fd buf w" by (simp add: content_def)
  from f have l: "len buf \<le> len buf1" by linarith
  have u: "take (len buf) (unconsumed buf1) = unconsumed buf"
  proof -
    from f have "unconsumed buf1 @ pending w1 fd = unconsumed buf @ pending w fd" by simp
    then have "take (len buf) (unconsumed buf1 @ pending w1 fd) = unconsumed buf"
      using length_unconsumed [OF inv] by simp
    moreover from f have "buf_inv cfg buf1" by simp
    then have "len buf \<le> length (unconsumed buf1)"
      using l by (simp add: length_unconsumed)
    ultimately show ?thesis by simp
  qed
  have e: "take (len buf) (unconsumed buf') = unconsumed buf"
    if "len buf1 \<le> len buf'" "take (len buf1) (unconsumed buf') = unconsumed buf1"
  proof -
    have "take (len buf) (take (len buf1) (unconsumed buf')) = unconsumed buf"
      using that(2) u by simp
    with l show ?thesis by (simp add: min_def)
  qed
  from assms(5) have p: "st_inv cfg fd buf' w'" "others_kept fd w1 w'"
    "rc = GNL_LINE_READ \<or> rc = GNL_EOF \<or> rc = GNL_ERROR"
    "rc = GNL_LINE_READ \<longrightarrow>
        (case ln of
           None \<Rightarrow> False
         | Some l \<Rightarrow>
             l = butlast l @ [CHR 0x00] \<and> butlast l \<noteq> [] \<and>
             butlast l @ content fd buf' w' = content fd buf1 w1 \<and>
             (ends_once d (butlast l) \<or>
              d \<notin> set (butlast l) \<and> len buf' = 0 \<and> eof_reached buf'))"
    "rc = GNL_EOF \<longrightarrow>
        ln = None \<and> len buf' = 0 \<and> eof_reached buf' \<and>
        content fd buf' w' = content fd buf1 w1 \<and>
        (0 < GNL_BUFFER_SIZE cfg \<longrightarrow> content fd buf1 w1 = [])"
    "rc = GNL_ERROR \<longrightarrow>
        ln = None \<and> content fd buf' w' = content fd buf1 w1 \<and>
        len buf1 \<le> len buf' \<and> take (len buf1) (unconsumed buf') = unconsumed buf1"
    by (simp_all add: loop_post_def)
  from f p(2) have k: "others_kept fd w w'" by (blast intro: others_kept_trans)
  from p(6) l e have err: "rc = GNL_ERROR \<longrightarrow>
        ln = None \<and> content fd buf' w' = content fd buf w \<and>
        len buf \<le> len buf' \<and> take (len buf) (unconsumed buf') = unconsumed buf"
    unfolding c by auto
  show ?thesis
    unfolding loop_post_def
    using p(1) k assms(2) p(3) p(4) [unfolded c] p(5) [unfolded c] err
    by (intro conjI) simp_all
qed

lemma st_inv_fill:
  assumes "st_inv cfg fd buf w" "\<not> eof_reached buf"
    "gnl_fill_buffer cfg fd w buf = Some (n, buf1, w1)" "\<not> n < 0"
  shows "st_inv cfg fd buf1 w1"
proof -
  from assms(1) have inv: "buf_inv cfg buf" by (simp add: st_inv_def)
  from fill_ok_post [OF inv assms(3,4)] assms(2) show ?thesis
    by (simp add: st_inv_def)
qed

lemma gnl_loop_post:
  assumes "st_inv cfg fd buf w" "gnl_loop cfg fd d buf w = Some (rc, ln, buf', w')"
  shows "loop_post cfg fd d buf w rc ln buf' w'"
  using assms
proof (induction cfg fd d buf w rule: gnl_loop.induct)
  case (1 cfg fd d buf w)
  show ?case
  proof (cases "d \<in> set (unconsumed buf)")
    case True
    with "1.prems" show ?thesis by (intro loop_post_found) simp_all
  next
    case absent: False
    show ?thesis
    proof (cases "eof_reached buf")
      case True
      show ?thesis
      proof (cases "len buf > 0")
        case True
        with \<open>eof_reached buf\<close> absent "1.prems" show ?thesis
          by (intro loop_post_rest) simp_all
      next
        case False
        with \<open>eof_reached buf\<close> "1.prems"(2) gnl_loop_drained [of buf cfg fd d w]
        have "rc = GNL_EOF" "ln = None" "buf' = buf" "w' = w" by simp_all
        with False \<open>eof_reached buf\<close> "1.prems"(1) show ?thesis
          by (simp add: loop_post_drained)
      qed
    next
      case False
      from "1.prems"(1) have inv: "buf_inv cfg buf" by (simp add: st_inv_def)
      from fill_total [OF inv, of fd w] obtain n buf1 w1 where
        fill: "gnl_fill_buffer cfg fd w buf = Some (n, buf1, w1)"
        by (cases "gnl_fill_buffer cfg fd w buf") auto
      note loop = "1.prems"(2) [unfolded gnl_loop_absent [OF absent]]
      show ?thesis
      proof (cases "n < 0")
        case True
        with loop False fill have "rc = GNL_ERROR" "ln = None" "buf' = buf1" "w' = w1"
          by simp_all
        with loop_post_fill_fail [OF "1.prems"(1) fill True] show ?thesis by simp
      next
        case nonneg: False
        with loop False fill have rec: "gnl_loop cfg fd d buf1 w1 = Some (rc, ln, buf', w')"
          by simp
        have fd: "\<not> 0 \<le> gnl_find_delim buf d"
          by (simp add: find_delim_absent [OF absent])
        have "loop_post cfg fd d buf1 w1 rc ln buf' w'"
          using "1.IH" [OF refl fd False fill refl refl nonneg
              st_inv_fill [OF "1.prems"(1) False fill nonneg] rec] .
        then show ?thesis
          by (rule loop_post_fill_step [OF "1.prems"(1) False fill nonneg])
      qed
    qed
  qed
qed

lemma gnl_loop_total:
  assumes "buf_inv cfg buf"
  shows "gnl_loop cfg fd d buf w \<noteq> None"
  using assms
proof (induction cfg fd d buf w rule: gnl_loop.induct)
  case (1 cfg fd d buf w)
  show ?case
  proof (cases "d \<in> set (unconsumed buf)")
    case True
    then show ?thesis
      by (simp add: gnl_loop_found [OF "1.prems" True] split: prod.splits)
  next
    case absent: False
    show ?thesis
    proof (cases "eof_reached buf")
      case True
      then show ?thesis by (simp add: gnl_loop_absent [OF absent] split: prod.splits)
    next
      case False
      from fill_total [OF "1.prems", of fd w] obtain n buf1 w1 where
        fill: "gnl_fill_buffer cfg fd w buf = Some (n, buf1, w1)"
        by (cases "gnl_fill_buffer cfg fd w buf") auto
      show ?thesis
      proof (cases "n < 0")
        case True
        with False fill show ?thesis by (simp add: gnl_loop_absent [OF absent])
      next
        case nonneg: False
        have fd: "\<not> 0 \<le> gnl_find_delim buf d"
          by (simp add: find_delim_absent [OF absent])
        from fill_ok_post [OF "1.prems" fill nonneg] have "buf_inv cfg buf1" by simp
        from "1.IH" [OF refl fd False fill refl refl nonneg this]
        show ?thesis using False fill nonneg by (simp add: gnl_loop_absent [OF absent])
      qed
    qed
  qed
qed

lemma get_buffer_cases:
  assumes "handle_inv cfg fd g w"
  obtains
    (fail) w1 where "gnl_get_buffer cfg fd g w = (None, g, w1)" "pending w1 = pending w"
      "g fd = None"
  | (ok) buf g1 w1 where "gnl_get_buffer cfg fd g w = (Some buf, g1, w1)"
      "g1 = g(fd \<mapsto> buf)" "pending w1 = pending w" "st_inv cfg fd buf w1"
      "content fd buf w1 = handle_content fd g w"
      "case g fd of None \<Rightarrow> \<not> eof_reached buf | Some b \<Rightarrow> buf = b"
proof (cases "g fd")
  case (Some b)
  then have "gnl_get_buffer cfg fd g w = (Some b, g, w)" by (simp add: gnl_get_buffer_def)
  moreover from Some have "g = g(fd \<mapsto> b)" by auto
  moreover from Some assms have "st_inv cfg fd b w" by (simp add: handle_inv_def)
  moreover from Some have "content fd b w = handle_content fd g w"
    by (simp add: content_def handle_content_def)
  ultimately show ?thesis using Some by (intro ok [of b g w]) simp_all
next
  case None
  obtain z w1 where a1: "next_alloc w SIZEOF_GNL_BUFFER = (z, w1)"
    by (cases "next_alloc w SIZEOF_GNL_BUFFER")
  note p1 = next_alloc_pending [OF a1]
  show ?thesis
  proof (cases z)
    case zNone: None
    with None a1 have "gnl_get_buffer cfg fd g w = (None, g, w1)"
      by (simp add: gnl_get_buffer_def)
    with p1 None show ?thesis by (intro fail [of w1]) simp_all
  next
    case (Some c0)
    obtain r w2 where m: "sys_malloc w1 (GNL_BUFFER_SIZE cfg) = (r, w2)"
      by (cases "sys_malloc w1 (GNL_BUFFER_SIZE cfg)")
    from m show ?thesis
    proof (cases rule: sys_malloc_cases)
      case fail': fail
      with None a1 Some m have "gnl_get_buffer cfg fd g w = (None, g, w2)"
        by (simp add: gnl_get_buffer_def)
      with p1 fail' None show ?thesis by (intro fail [of w2]) simp_all
    next
      case (ok c)
      let ?buf = "\<lparr>data = replicate (GNL_BUFFER_SIZE cfg) c, size_b = GNL_BUFFER_SIZE cfg,
                    len = 0, eof_reached = False\<rparr>"
      from None a1 Some m ok
      have "gnl_get_buffer cfg fd g w = (Some ?buf, g(fd \<mapsto> ?buf), w2)"
        by (simp add: gnl_get_buffer_def Let_def)
      moreover from ok have "st_inv cfg fd ?buf w2"
        by (simp add: st_inv_def buf_inv_def)
      moreover from ok p1 None have "content fd ?buf w2 = handle_content fd g w"
        by (simp add: content_def handle_content_def unconsumed_def)
      ultimately show ?thesis using ok p1 None
        by (intro that(2) [of ?buf "g(fd \<mapsto> ?buf)" w2]) simp_all
    qed
  qed
qed

lemma call_invalid:
  "fd < 0 \<or> fd \<ge> GNL_MAX_FD cfg \<Longrightarrow>
     get_next_line_delim cfg fd line d g w = Some (GNL_ERROR, line, g, w)"
  by (auto simp: get_next_line_delim_def)

lemma call_null: "get_next_line_delim cfg fd None d g w = Some (GNL_ERROR, None, g, w)"
  by (simp add: get_next_line_delim_def)

lemma call_total:
  assumes "handle_inv cfg fd g w"
  shows "get_next_line_delim cfg fd line d g w \<noteq> None"
proof (cases "line = None \<or> fd < 0 \<or> fd \<ge> GNL_MAX_FD cfg")
  case True
  then show ?thesis by (simp add: get_next_line_delim_def)
next
  case False
  from assms show ?thesis
  proof (cases rule: get_buffer_cases)
    case (fail w1)
    with False show ?thesis by (simp add: get_next_line_delim_def)
  next
    case (ok buf g1 w1)
    from ok(4) have "buf_inv cfg buf" by (simp add: st_inv_def)
    from gnl_loop_total [OF this, of fd d w1] ok(1) False show ?thesis
      by (auto simp: get_next_line_delim_def)
  qed
qed

lemma call_valid_post:
  assumes "handle_inv cfg fd g w" "0 \<le> fd" "fd < GNL_MAX_FD cfg"
    "get_next_line_delim cfg fd (Some cell) d g w = Some (rc, out, g', w')"
  shows "\<exists>ln. out = Some ln \<and> call_post cfg fd d g w rc ln g' w'"
  using assms(1)
proof (cases rule: get_buffer_cases)
  case (fail w1)
  with assms have "rc = GNL_ERROR" "out = Some None" "g' = g" "w' = w1"
    by (simp_all add: get_next_line_delim_def)
  moreover from fail assms(1) have "call_post cfg fd d g w GNL_ERROR None g w1"
    by (simp add: call_post_def handle_inv_def handle_content_def others_kept_pending
        GNL_EOF_def GNL_LINE_READ_def GNL_ERROR_def)
  ultimately show ?thesis by simp
next
  case (ok buf g1 w1)
  from ok(4) have "buf_inv cfg buf" by (simp add: st_inv_def)
  from gnl_loop_total [OF this, of fd d w1] obtain rc1 ln buf' w2 where
    loop: "gnl_loop cfg fd d buf w1 = Some (rc1, ln, buf', w2)"
    by (cases "gnl_loop cfg fd d buf w1") auto
  with ok(1,2) assms have r: "rc = rc1" "out = Some ln" "g' = g(fd \<mapsto> buf')" "w' = w2"
    by (simp_all add: get_next_line_delim_def)
  from gnl_loop_post [OF ok(4) loop]
  have p: "loop_post cfg fd d buf w1 rc ln buf' w'" using r by simp
  have hc: "handle_content fd g' w' = content fd buf' w'"
    using r(3) by (simp add: handle_content_def content_def)
  have dr: "drained fd g' \<longleftrightarrow> len buf' = 0 \<and> eof_reached buf'"
    using r(3) by (simp add: drained_def)
  have hi: "handle_inv cfg fd g' w' \<longleftrightarrow> st_inv cfg fd buf' w'"
    using r(3) by (simp add: handle_inv_def)
  have ok': "others_kept fd w w' \<longleftrightarrow> others_kept fd w1 w'"
    using ok(3) by (simp add: others_kept_def)
  have same: "\<forall>fd'. fd' \<noteq> fd \<longrightarrow> g' fd' = g fd'" using r(3) by simp
  have "call_post cfg fd d g w rc ln g' w'"
    unfolding call_post_def hc dr hi ok' ok(5) [symmetric]
    using p same unfolding loop_post_def
    by (intro conjI) (simp_all split: option.splits)
  with r(2) show ?thesis by simp
qed

lemma call_fresh_post:
  assumes "handle_inv cfg fd g w"
    "get_next_line_delim cfg fd (Some None) d g w = Some (rc, out, g', w')"
  shows "\<exists>ln. out = Some ln \<and> call_post cfg fd d g w rc ln g' w' \<and>
           (rc \<noteq> GNL_ERROR \<longrightarrow> 0 \<le> fd \<and> fd < GNL_MAX_FD cfg)"
proof (cases "fd < 0 \<or> fd \<ge> GNL_MAX_FD cfg")
  case True
  from call_invalid [OF True] assms(2)
  have "rc = GNL_ERROR" "out = Some None" "g' = g" "w' = w" by simp_all
  moreover from assms(1) have "call_post cfg fd d g w GNL_ERROR None g w"
    by (simp add: call_post_def others_kept_refl GNL_EOF_def GNL_LINE_READ_def GNL_ERROR_def)
  ultimately show ?thesis by simp
next
  case False
  then have "0 \<le> fd" "fd < GNL_MAX_FD cfg" by simp_all
  from call_valid_post [OF assms(1) this assms(2)] this show ?thesis by auto
qed

lemma call_post_segment:
  assumes "call_post cfg fd d g w rc ln g1 w1"
  shows "segment_of (rc, Some ln) @ handle_content fd g1 w1 = handle_content fd g w"
proof -
  from assms consider "rc = GNL_LINE_READ" | "rc = GNL_EOF" | "rc = GNL_ERROR"
    by (auto simp: call_post_def)
  then show ?thesis
  proof cases
    case 1
    with assms show ?thesis
      by (cases ln) (simp_all add: call_post_def segment_of_def)
  next
    case 2
    with assms show ?thesis by (simp add: call_post_def segment_of_def)
  next
    case 3
    with assms show ?thesis by (simp add: call_post_def segment_of_def)
  qed
qed

lemma gnl_calls_step:
  assumes "handle_inv cfg fd g w"
    "gnl_calls cfg fd d (Suc n) g w = Some (outs, g', w')"
  obtains rc ln g1 w1 rest where
    "get_next_line_delim cfg fd (Some None) d g w = Some (rc, Some ln, g1, w1)"
    "call_post cfg fd d g w rc ln g1 w1" "rc \<noteq> GNL_ERROR \<Longrightarrow> 0 \<le> fd \<and> fd < GNL_MAX_FD cfg"
    "gnl_calls cfg fd d n g1 w1 = Some (rest, g', w')" "outs = (rc, Some ln) # rest"
proof -
  from assms(2) obtain rc out g1 w1 where
    c: "get_next_line_delim cfg fd (Some None) d g w = Some (rc, out, g1, w1)"
    by (auto split: option.splits)
  from call_fresh_post [OF assms(1) c] obtain ln where
    ln: "out = Some ln" "call_post cfg fd d g w rc ln g1 w1"
      "rc \<noteq> GNL_ERROR \<longrightarrow> 0 \<le> fd \<and> fd < GNL_MAX_FD cfg" by blast
  from assms(2) c obtain rest where
    r: "gnl_calls cfg fd d n g1 w1 = Some (rest, g', w')" "outs = (rc, out) # rest"
    by (auto split: option.splits)
  from c ln r show thesis by (intro that [of rc ln g1 w1 rest]) simp_all
qed

lemma call_post_inv: "call_post cfg fd d g w rc ln g1 w1 \<Longrightarrow> handle_inv cfg fd g1 w1"
  by (simp add: call_post_def)

lemma gnl_calls_total:
  assumes "handle_inv cfg fd g w"
  shows "gnl_calls cfg fd d n g w \<noteq> None"
  using assms(1)
proof (induction n arbitrary: g w)
  case 0
  show ?case by simp
next
  case (Suc n)
  from call_total [OF Suc.prems, of "Some None" d] obtain rc out g1 w1 where
    c: "get_next_line_delim cfg fd (Some None) d g w = Some (rc, out, g1, w1)"
    by (cases "get_next_line_delim cfg fd (Some None) d g w") auto
  from call_fresh_post [OF Suc.prems c] have "handle_inv cfg fd g1 w1"
    by (auto dest: call_post_inv)
  from Suc.IH [OF this] c show ?case by auto
qed

lemma gnl_calls_concat:
  assumes "handle_inv cfg fd g w"
    "gnl_calls cfg fd d n g w = Some (outs, g', w')"
  shows "concat (map segment_of outs) @ handle_content fd g' w' = handle_content fd g w \<and>
         handle_inv cfg fd g' w' \<and> length outs = n"
  using assms(1,2)
proof (induction n arbitrary: g w outs)
  case 0
  then show ?case by simp
next
  case (Suc n)
  from Suc.prems(1) Suc.prems(2) show ?case
  proof (cases rule: gnl_calls_step)
    case (1 rc ln g1 w1 rest)
    from Suc.IH [OF call_post_inv [OF 1(2)] 1(4)] call_post_segment [OF 1(2)] 1(5)
    show ?thesis by simp
  qed
qed

lemma gnl_calls_last_eof:
  assumes "handle_inv cfg fd g w" "0 < GNL_BUFFER_SIZE cfg"
    "gnl_calls cfg fd d n g w = Some (outs, g', w')" "outs \<noteq> []" "fst (last outs) = GNL_EOF"
  shows "handle_content fd g' w' = []"
  using assms(1,3,4,5)
proof (induction n arbitrary: g w outs)
  case 0
  then show ?case by simp
next
  case (Suc n)
  from Suc.prems(1) Suc.prems(2) show ?case
  proof (cases rule: gnl_calls_step)
    case (1 rc ln g1 w1 rest)
    show ?thesis
    proof (cases "rest = []")
      case True
      with 1(4) have "n = 0"
        using gnl_calls_concat [OF call_post_inv [OF 1(2)] 1(4)] by simp
      with 1(4) have "g' = g1" "w' = w1" by simp_all
      moreover from True 1(5) Suc.prems(4) have "rc = GNL_EOF" by simp
      ultimately show ?thesis using 1(2) assms(2) by (simp add: call_post_def)
    next
      case False
      with 1(5) Suc.prems(4) have "fst (last rest) = GNL_EOF" by simp
      from Suc.IH [OF call_post_inv [OF 1(2)] 1(4) False this] show ?thesis .
    qed
  qed
qed

lemma call_drained:
  assumes "drained fd g" "0 \<le> fd" "fd < GNL_MAX_FD cfg"
  shows "get_next_line_delim cfg fd (Some cell) d g w = Some (GNL_EOF, Some None, g, w)"
proof -
  from assms(1) obtain b where b: "g fd = Some b" "len b = 0" "eof_reached b"
    by (auto simp: drained_def split: option.splits)
  then have "gnl_get_buffer cfg fd g w = (Some b, g, w)" by (simp add: gnl_get_buffer_def)
  moreover from b have "g(fd \<mapsto> b) = g" by auto
  ultimately show ?thesis using assms(2,3) gnl_loop_drained [OF b(2,3), of cfg fd d w]
    by (simp add: get_next_line_delim_def)
qed

lemma gnl_calls_drained:
  assumes "drained fd g" "0 \<le> fd" "fd < GNL_MAX_FD cfg"
  shows "gnl_calls cfg fd d n g w = Some (replicate n (GNL_EOF, Some None), g, w)"
  by (induction n) (simp_all add: call_drained [OF assms])

lemma ends_once_count: "ends_once d seg \<Longrightarrow> count_list seg d = 1"
proof -
  assume e: "ends_once d seg"
  then have "seg = butlast seg @ [d]" by (auto simp: ends_once_def)
  then have "count_list seg d = count_list (butlast seg @ [d]) d" by simp
  also have "\<dots> = 1" using e by (simp add: ends_once_def count_list_0_iff)
  finally show ?thesis .
qed

lemma gnl_calls_delimited:
  assumes "handle_inv cfg fd g w"
    "gnl_calls cfg fd d n g w = Some (outs, g', w')" "i < length outs"
    "fst (outs ! i) = GNL_LINE_READ"
  shows "ends_once d (segment_of (outs ! i)) \<or>
         d \<notin> set (segment_of (outs ! i)) \<and>
         (\<forall>j. i < j \<and> j < length outs \<longrightarrow> outs ! j = (GNL_EOF, Some None))"
  using assms(1,2,3,4)
proof (induction n arbitrary: g w outs i)
  case 0
  then show ?case by simp
next
  case (Suc n)
  from Suc.prems(1) Suc.prems(2) show ?case
  proof (cases rule: gnl_calls_step)
    case (1 rc ln g1 w1 rest)
    show ?thesis
    proof (cases i)
      case 0
      with 1(5) Suc.prems(4) have rc: "rc = GNL_LINE_READ" by simp
      then have v: "0 \<le> fd" "fd < GNL_MAX_FD cfg" using 1(3) by (simp_all add: GNL_LINE_READ_def GNL_ERROR_def)
      from 1(2) rc obtain l where l: "ln = Some l"
        "ends_once d (butlast l) \<or> d \<notin> set (butlast l) \<and> drained fd g1"
        by (cases ln) (auto simp: call_post_def)
      show ?thesis
      proof (cases "ends_once d (butlast l)")
        case True
        with 0 1(5) l(1) show ?thesis by (simp add: segment_of_def)
      next
        case False
        with l have dr: "d \<notin> set (butlast l)" "drained fd g1" by simp_all
        from gnl_calls_drained [OF dr(2) v, of d n w1] 1(4)
        have "rest = replicate n (GNL_EOF, Some None)" by simp
        with 0 1(5) l(1) dr(1) show ?thesis by (auto simp: segment_of_def nth_Cons')
      qed
    next
      case (Suc k)
      with 1(5) Suc.prems(3,4) have k: "k < length rest" "fst (rest ! k) = GNL_LINE_READ"
        by simp_all
      have here: "outs ! i = rest ! k" using Suc 1(5) by simp
      have later: "outs ! j = (GNL_EOF, Some None)"
        if "\<forall>j. k < j \<and> j < length rest \<longrightarrow> rest ! j = (GNL_EOF, Some None)"
          "i < j" "j < length outs" for j
      proof (cases j)
        case 0
        with that(2) show ?thesis by simp
      next
        case (Suc j')
        with that Suc 1(5) \<open>i = Suc k\<close> show ?thesis by simp
      qed
      from Suc.IH [OF call_post_inv [OF 1(2)] 1(4) k] show ?thesis
        unfolding here using later by blast
    qed
  qed
qed

lemmas eval_defs = get_next_line_delim_def gnl_get_buffer_def next_alloc_def sys_malloc_def
  sys_realloc_def sys_read_def deliver_def SIZEOF_GNL_BUFFER_def SSIZE_MAX_def SIZE_MOD_def
  gnl_loop.simps gnl_find_delim_def memchr_def gnl_extract_line_def gnl_fill_buffer_def
  gnl_ensure_capacity_def grow_loop.simps size_add_def size_sub_def size_mul_def
  to_ssize_def of_ssize_def mem_write_def GNL_LINE_READ_def GNL_EOF_def GNL_ERROR_def Let_def

lemma gnl_calls_numeral:
  "gnl_calls cfg fd delim (numeral k) g w =
     (case get_next_line_delim cfg fd (Some None) delim g w of
        None \<Rightarrow> None
      | Some (rc, ln, g1, w1) \<Rightarrow>
         (case gnl_calls cfg fd delim (pred_numeral k) g1 w1 of
            None \<Rightarrow> None
          | Some (outs, g', w') \<Rightarrow> Some ((rc, ln) # outs, g', w')))"
  by (simp add: numeral_eq_Suc)

lemma demo_run:
  "map_option fst (gnl_calls demo_config 3 (CHR '','') 5 (\<lambda>_. None) demo_world) = Some demo_outs"
  by (simp add: demo_config_def demo_world_def demo_outs_def gnl_calls_numeral eval_defs)

lemma fill_keeps_prefix:
  assumes "buf_inv cfg buf" "gnl_fill_buffer cfg fd w buf = Some (n, buf', w')"
  shows "buf_inv cfg buf' \<and> len buf \<le> len buf' \<and> take (len buf) (unconsumed buf') = unconsumed buf \<and>
         (eof_reached buf \<longrightarrow> eof_reached buf')"
proof (cases "n < 0")
  case True
  from fill_fail_post [OF assms True] length_unconsumed [OF assms(1)] show ?thesis by simp
next
  case False
  note f = fill_ok_post [OF assms False]
  from f have l: "len buf \<le> len buf'" by linarith
  from f have "unconsumed buf' @ pending w' fd = unconsumed buf @ pending w fd" by simp
  then have "take (len buf) (unconsumed buf' @ pending w' fd) = unconsumed buf"
    using length_unconsumed [OF assms(1)] by simp
  moreover from f have "buf_inv cfg buf'" by simp
  then have "len buf \<le> length (unconsumed buf')"
    using l by (simp add: length_unconsumed)
  ultimately have "take (len buf) (unconsumed buf') = unconsumed buf" by simp
  with f l show ?thesis by simp
qed

lemma gnl_loop_inv:
  assumes "buf_inv cfg buf" "gnl_loop cfg fd d buf w = Some (rc, ln, buf', w')"
  shows "buf_inv cfg buf' \<and> (eof_reached buf \<longrightarrow> eof_reached buf')"
  using assms
proof (induction cfg fd d buf w rule: gnl_loop.induct)
  case (1 cfg fd d buf w)
  note inv = "1.prems"(1)
  show ?case
  proof (cases "d \<in> set (unconsumed buf)")
    case True
    let ?p = "length (takeWhile (\<lambda>x. x \<noteq> d) (unconsumed buf))"
    have "?p < length (unconsumed buf)" using True by (rule takeWhile_pos_less)
    then have p: "?p < len buf" using length_unconsumed [OF inv] by simp
    note loop = "1.prems"(2) [unfolded gnl_loop_found [OF inv True]]
    from inv p show ?thesis
      by (cases rule: extract_cases [where w = w]) (use loop inv in auto)
  next
    case absent: False
    note loop = "1.prems"(2) [unfolded gnl_loop_absent [OF absent]]
    show ?thesis
    proof (cases "eof_reached buf")
      case True
      show ?thesis
      proof (cases "len buf > 0")
        case pos: True
        from inv pos SSIZE_MAX_less have sub: "size_sub (len buf) 1 = len buf - 1"
          by (intro size_sub_eq) (simp_all add: buf_inv_def)
        from pos have p: "len buf - 1 < len buf" by simp
        from inv p show ?thesis
          by (cases rule: extract_cases [where w = w]) (use loop inv True pos sub in auto)
      next
        case False
        with loop True inv show ?thesis by simp
      qed
    next
      case False
      from fill_total [OF inv, of fd w] obtain n buf1 w1 where
        fill: "gnl_fill_buffer cfg fd w buf = Some (n, buf1, w1)"
        by (cases "gnl_fill_buffer cfg fd w buf") auto
      note k = fill_keeps_prefix [OF inv fill]
      show ?thesis
      proof (cases "n < 0")
        case True
        with loop False fill have "buf' = buf1" by simp
        with k show ?thesis by simp
      next
        case nonneg: False
        with loop False fill have rec: "gnl_loop cfg fd d buf1 w1 = Some (rc, ln, buf', w')"
          by simp
        have fd: "\<not> 0 \<le> gnl_find_delim buf d"
          by (simp add: find_delim_absent [OF absent])
        from k have "buf_inv cfg buf1" by simp
        from "1.IH" [OF refl fd False fill refl refl nonneg this rec] False
        show ?thesis by simp
      qed
    qed
  qed
qed

lemma refilled_content:
  assumes "refilled cfg fd buf w buf' w'" "buf_inv cfg buf"
  shows "buf_inv cfg buf' \<and>
         unconsumed buf' @ pending w' fd = unconsumed buf @ pending w fd \<and>
         (eof_reached buf \<longrightarrow> eof_reached buf')"
  using assms
proof (induction rule: refilled.induct)
  case (refilled_none buf w)
  then show ?case by simp
next
  case (refilled_more w buf n buf1 w1 buf' w')
  from fill_ok_post [OF refilled_more.prems refilled_more.hyps(1,2)] refilled_more.IH
  show ?case by simp
qed

lemma gnl_loop_error_state:
  assumes "buf_inv cfg buf" "gnl_loop cfg fd d buf w = Some (GNL_ERROR, ln, buf', w')"
  shows "ln = None \<and>
         (\<exists>buf_k w_k. refilled cfg fd buf w buf_k w_k \<and>
            unconsumed buf' = unconsumed buf_k \<and> len buf' = len buf_k \<and>
            eof_reached buf' = eof_reached buf_k \<and> pending w' = pending w_k)"
  using assms
proof (induction cfg fd d buf w rule: gnl_loop.induct)
  case (1 cfg fd d buf w)
  note inv = "1.prems"(1)
  have stay: ?case if "ln = None" "unconsumed buf' = unconsumed buf" "len buf' = len buf"
    "eof_reached buf' = eof_reached buf" "pending w' = pending w"
    using that by (intro conjI exI [of _ buf] exI [of _ w] refilled_none) simp_all
  have ne: "GNL_ERROR \<noteq> GNL_LINE_READ" "GNL_ERROR \<noteq> GNL_EOF"
    by (simp_all add: GNL_ERROR_def GNL_LINE_READ_def GNL_EOF_def)
  show ?case
  proof (cases "d \<in> set (unconsumed buf)")
    case True
    let ?p = "length (takeWhile (\<lambda>x. x \<noteq> d) (unconsumed buf))"
    have "?p < length (unconsumed buf)" using True by (rule takeWhile_pos_less)
    then have p: "?p < len buf" using length_unconsumed [OF inv] by simp
    note loop = "1.prems"(2) [unfolded gnl_loop_found [OF inv True]]
    from inv p show ?thesis
    proof (cases rule: extract_cases [where w = w])
      case (fail w1)
      with loop show ?thesis by (intro stay) simp_all
    next
      case (ok buf1 w1)
      with loop ne show ?thesis by simp
    qed
  next
    case absent: False
    note loop = "1.prems"(2) [unfolded gnl_loop_absent [OF absent]]
    show ?thesis
    proof (cases "eof_reached buf")
      case True
      show ?thesis
      proof (cases "len buf > 0")
        case pos: True
        from inv pos SSIZE_MAX_less have sub: "size_sub (len buf) 1 = len buf - 1"
          by (intro size_sub_eq) (simp_all add: buf_inv_def)
        from pos have p: "len buf - 1 < len buf" by simp
        from inv p show ?thesis
        proof (cases rule: extract_cases [where w = w])
          case (fail w1)
          with loop True pos sub show ?thesis by (intro stay) simp_all
        next
          case (ok buf1 w1)
          with loop True pos sub ne show ?thesis by simp
        qed
      next
        case False
        with loop True ne show ?thesis by simp
      qed
    next
      case False
      from fill_total [OF inv, of fd w] obtain n buf1 w1 where
        fill: "gnl_fill_buffer cfg fd w buf = Some (n, buf1, w1)"
        by (cases "gnl_fill_buffer cfg fd w buf") auto
      show ?thesis
      proof (cases "n < 0")
        case True
        with loop False fill have "ln = None" "buf' = buf1" "w' = w1" by simp_all
        with fill_fail_post [OF inv fill True] show ?thesis by (intro stay) simp_all
      next
        case nonneg: False
        with loop False fill have rec: "gnl_loop cfg fd d buf1 w1 = Some (GNL_ERROR, ln, buf', w')"
          by simp
        have fd: "\<not> 0 \<le> gnl_find_delim buf d"
          by (simp add: find_delim_absent [OF absent])
        from fill_ok_post [OF inv fill nonneg] have "buf_inv cfg buf1" by simp
        from "1.IH" [OF refl fd False fill refl refl nonneg this rec]
        obtain buf_k w_k where k: "ln = None" "refilled cfg fd buf1 w1 buf_k w_k"
          "unconsumed buf' = unconsumed buf_k" "len buf' = len buf_k"
          "eof_reached buf' = eof_reached buf_k" "pending w' = pending w_k"
          by blast
        from refilled_more [OF fill nonneg k(2)] k show ?thesis by blast
      qed
    qed
  qed
qed

lemma ensure_fail_unchanged:
  "gnl_ensure_capacity w buf needed = Some (rc, buf', w') \<Longrightarrow> rc < 0 \<Longrightarrow> buf' = buf"
  by (auto simp: gnl_ensure_capacity_def split: if_splits option.splits prod.splits)

lemma extract_fail_unchanged:
  "gnl_extract_line w buf p = (None, buf', w') \<Longrightarrow> buf' = buf"
  by (auto simp: gnl_extract_line_def Let_def split: option.splits prod.splits)

lemma grow_loop_doubling:
  assumes "0 < s" "l \<le> s" "s < SIZE_MOD" "l + needed \<le> Suc SSIZE_MAX"
  shows "\<exists>k. grow_loop s l needed = Some (s * 2 ^ k) \<and> needed \<le> s * 2 ^ k - l \<and>
             (\<forall>j<k. s * 2 ^ j - l < needed)"
  using assms(1,2,3)
proof (induction "l + needed - s" arbitrary: s rule: less_induct)
  case less
  have sub: "size_sub s l = s - l" using less.prems by (intro size_sub_eq) simp_all
  show ?case
  proof (cases "needed \<le> s - l")
    case True
    then have "grow_loop s l needed = Some (s * 2 ^ 0)"
      using sub by (simp add: grow_loop_done)
    with True show ?thesis by (intro exI [of _ 0]) simp
  next
    case False
    then have small: "s < l + needed" by simp
    with assms(4) SSIZE_MAX_less have d: "s * 2 < SIZE_MOD"
      by (simp add: SIZE_MOD_def SSIZE_MAX_def)
    from False sub have "grow_loop s l needed = grow_loop (s * 2) l needed"
      using d by (simp add: grow_loop_step size_mul_eq)
    moreover have "l + needed - s * 2 < l + needed - s" using small less.prems(1) by simp
    from less.hyps [OF this] less.prems d obtain k where
      k: "grow_loop (s * 2) l needed = Some (s * 2 * 2 ^ k)" "needed \<le> s * 2 * 2 ^ k - l"
        "\<forall>j<k. s * 2 * 2 ^ j - l < needed"
      by auto
    have "s * 2 ^ j - l < needed" if "j < Suc k" for j
    proof (cases j)
      case 0
      with False show ?thesis by simp
    next
      case (Suc j')
      with that k(3) have "s * 2 * 2 ^ j' - l < needed" by simp
      with Suc show ?thesis by (simp add: mult.assoc)
    qed
    ultimately show ?thesis using k(1,2)
      by (intro exI [of _ "Suc k"]) (simp add: mult.assoc)
  qed
qed

lemma grow_loop_from_zero: "grow_loop 0 0 1 = None"
proof (cases "grow_loop 0 0 1")
  case (Some y)
  have step: "\<not> (ns = 0 \<and> l = 0 \<and> nd = (1::nat))"
    if ih: "\<And>a b c y. loop a b c = Some y \<Longrightarrow> \<not> (a = 0 \<and> b = 0 \<and> c = (1::nat))"
      and eq: "(if size_sub ns l < nd then loop (size_mul ns 2) l nd else Some ns) = Some r"
    for loop :: "nat \<Rightarrow> nat \<Rightarrow> nat \<Rightarrow> nat option" and ns l nd r
  proof
    assume z: "ns = 0 \<and> l = 0 \<and> nd = 1"
    with eq have "loop 0 0 1 = Some r"
      by (simp add: size_sub_def size_mul_def SIZE_MOD_def)
    from ih [OF this] show False by simp
  qed
  have "\<not> ((0::nat) = 0 \<and> (0::nat) = 0 \<and> (1::nat) = 1)"
    by (rule grow_loop.raw_induct
        [where P = "\<lambda>s l n y. \<not> (s = 0 \<and> l = 0 \<and> n = (1::nat))", OF step Some])
  then show ?thesis by simp
qed simp

lemma next_alloc_calm:
  assumes "calm w" "n \<le> SSIZE_MAX"
  obtains c w' where "next_alloc w n = (Some c, w')" "calm w'" "pending w' = pending w"
proof (cases "alloc_script w")
  case Nil
  with assms show ?thesis by (intro that [of "CHR 0x00" w]) (simp_all add: next_alloc_def)
next
  case (Cons e es)
  with assms(1) obtain c where e: "e = AllocOk c" by (cases e) (auto simp: calm_def)
  with Cons assms show ?thesis
    by (intro that [of c "w\<lparr>alloc_script := es\<rparr>"]) (simp_all add: next_alloc_def calm_def)
qed

lemma sys_malloc_calm:
  assumes "calm w" "n \<le> SSIZE_MAX" "sys_malloc w n = (r, w')"
  shows "r \<noteq> None \<and> calm w' \<and> pending w' = pending w"
  using assms(1,2)
  by (rule next_alloc_calm) (use assms(3) in \<open>auto simp: sys_malloc_def\<close>)

lemma sys_realloc_calm:
  assumes "calm w" "n \<le> SSIZE_MAX" "sys_realloc w old n = (r, w')"
  shows "r \<noteq> None \<and> calm w' \<and> pending w' = pending w"
  using assms(1,2)
  by (rule next_alloc_calm) (use assms(3) in \<open>auto simp: sys_realloc_def\<close>)

lemma sys_read_calm:
  assumes "calm w" "sys_read w fd n = (r, w')"
  shows "r \<noteq> None \<and> calm w'"
proof (cases "read_script w")
  case Nil
  with assms show ?thesis by (auto simp: sys_read_def deliver_def calm_def)
next
  case (Cons e es)
  with assms show ?thesis
    by (cases e) (auto simp: sys_read_def deliver_def calm_def)
qed

lemma ensure_calm:
  assumes "buf_inv cfg buf" "roomy cfg N" "calm_inv cfg fd N buf w"
    "gnl_ensure_capacity w buf (GNL_BUFFER_SIZE cfg) = Some (rc, buf', w')"
  shows "rc = 0 \<and> calm_inv cfg fd N buf' w'"
  using assms(1)
proof (cases rule: ensure_cases [where w = w])
  case fits
  with assms show ?thesis by simp
next
  case (fail w1)
  from fail(1) assms(2,3) have "2 * size_b buf \<le> SSIZE_MAX"
    by (auto simp: calm_inv_def roomy_def)
  with sys_realloc_calm [OF _ this fail(2)] assms(3) show ?thesis by (simp add: calm_inv_def)
next
  case (grown w1 new_data)
  from grown(1) assms(2,3) have b: "2 * size_b buf \<le> 2 * (N + GNL_BUFFER_SIZE cfg)"
    "2 * size_b buf \<le> SSIZE_MAX"
    by (auto simp: calm_inv_def roomy_def)
  from sys_realloc_calm [OF _ b(2) grown(2)] assms(3) have "calm w1" "pending w1 = pending w"
    by (simp_all add: calm_inv_def)
  with grown(3) assms(3,4) b(1) show ?thesis by (simp add: calm_inv_def)
qed

lemma fill_calm:
  assumes "buf_inv cfg buf" "roomy cfg N" "calm_inv cfg fd N buf w"
    "gnl_fill_buffer cfg fd w buf = Some (n, buf', w')"
  shows "\<not> n < 0 \<and> calm_inv cfg fd N buf' w'"
  using assms(4)
proof (cases rule: fill_cases)
  case (grow_fail rc)
  with ensure_calm [OF assms(1,2,3) grow_fail(1)] show ?thesis by simp
next
  case (read_fail rc w1)
  from ensure_calm [OF assms(1,2,3) read_fail(1)] have "calm w1" by (simp add: calm_inv_def)
  from sys_read_calm [OF this read_fail(3)] show ?thesis by simp
next
  case (ok rc buf1 w1 chunk)
  note e = ensure_post [OF assms(1) ok(1)]
  from e ok(2) have e': "buf_inv cfg buf1" "GNL_BUFFER_SIZE cfg \<le> size_b buf1 - len buf1"
    by simp_all
  from ok(3) have lc: "length chunk \<le> GNL_BUFFER_SIZE cfg"
    by (cases rule: sys_read_cases) auto
  from filled_post(5) [OF e' lc] ok(4) have nonneg: "\<not> n < 0" by simp
  from ensure_calm [OF assms(1,2,3) ok(1)] have c1: "calm_inv cfg fd N buf1 w1" by simp
  then have "calm w1" by (simp add: calm_inv_def)
  from sys_read_calm [OF this ok(3)] have "calm w'" by simp
  moreover from fill_ok_post [OF assms(1,4) nonneg] assms(3)
  have "len buf' + length (pending w' fd) \<le> N" by (simp add: calm_inv_def)
  moreover have "size_b buf' = size_b buf1" using ok(5) by (simp add: filled_def Let_def)
  ultimately show ?thesis using nonneg c1 by (simp add: calm_inv_def)
qed

lemma extract_calm:
  assumes "buf_inv cfg buf" "roomy cfg N" "calm_inv cfg fd N buf w" "p < len buf"
    "gnl_extract_line w buf p = (ln, buf', w')"
  shows "ln \<noteq> None \<and> calm_inv cfg fd N buf' w'"
proof -
  from assms SSIZE_MAX_less have b: "Suc p \<le> len buf" "len buf \<le> SSIZE_MAX"
    "Suc (Suc p) < SIZE_MOD" "Suc (Suc p) \<le> SSIZE_MAX"
    by (simp_all add: buf_inv_def calm_inv_def roomy_def)
  then have l: "size_add p 1 = Suc p" "size_add (Suc p) 1 = Suc (Suc p)"
    by (simp_all add: size_add_eq)
  obtain r w1 where m: "sys_malloc w (Suc (Suc p)) = (r, w1)"
    by (cases "sys_malloc w (Suc (Suc p))")
  from assms(3) have "calm w" by (simp add: calm_inv_def)
  from sys_malloc_calm [OF this b(4) m] obtain mem where
    r: "r = Some mem" "calm w1" by auto
  from m r assms(5) l have w: "ln \<noteq> None" "w' = w1"
    by (auto simp: gnl_extract_line_def Let_def)
  from assms(1,4) have "len buf' \<le> len buf \<and> size_b buf' = size_b buf \<and> pending w' = pending w"
    by (cases rule: extract_cases [where w = w]) (use assms(5) w in auto)
  with w r assms(3) show ?thesis by (simp add: calm_inv_def)
qed

lemma gnl_loop_calm:
  assumes "buf_inv cfg buf" "roomy cfg N" "calm_inv cfg fd N buf w"
    "gnl_loop cfg fd d buf w = Some (rc, ln, buf', w')"
  shows "rc \<noteq> GNL_ERROR \<and> calm_inv cfg fd N buf' w'"
  using assms
proof (induction cfg fd d buf w rule: gnl_loop.induct)
  case (1 cfg fd d buf w)
  note inv = "1.prems"(1)
  have ne: "GNL_LINE_READ \<noteq> GNL_ERROR" "GNL_EOF \<noteq> GNL_ERROR"
    by (simp_all add: GNL_ERROR_def GNL_LINE_READ_def GNL_EOF_def)
  have extracted: ?case if "p < len buf"
    "(case gnl_extract_line w buf p of
        (line, buf', w') \<Rightarrow>
          Some (if line \<noteq> None then GNL_LINE_READ else GNL_ERROR, line, buf', w')) =
      Some (rc, ln, buf', w')" for p
  proof -
    obtain l b v where x: "gnl_extract_line w buf p = (l, b, v)"
      by (cases "gnl_extract_line w buf p")
    from extract_calm [OF "1.prems"(1,2,3) that(1) x] that(2) x ne show ?thesis by auto
  qed
  show ?case
  proof (cases "d \<in> set (unconsumed buf)")
    case True
    let ?p = "length (takeWhile (\<lambda>x. x \<noteq> d) (unconsumed buf))"
    have "?p < length (unconsumed buf)" using True by (rule takeWhile_pos_less)
    then have p: "?p < len buf" using length_unconsumed [OF inv] by simp
    from p "1.prems"(4) [unfolded gnl_loop_found [OF inv True]] show ?thesis
      by (rule extracted)
  next
    case absent: False
    note loop = "1.prems"(4) [unfolded gnl_loop_absent [OF absent]]
    show ?thesis
    proof (cases "eof_reached buf")
      case True
      show ?thesis
      proof (cases "len buf > 0")
        case pos: True
        from inv pos SSIZE_MAX_less have sub: "size_sub (len buf) 1 = len buf - 1"
          by (intro size_sub_eq) (simp_all add: buf_inv_def)
        from pos have p: "len buf - 1 < len buf" by simp
        from loop have "(case gnl_extract_line w buf (size_sub (len buf) 1) of
            (line, buf', w') \<Rightarrow>
              Some (if line \<noteq> None then GNL_LINE_READ else GNL_ERROR, line, buf', w')) =
          Some (rc, ln, buf', w')"
          by (simp only: True pos if_True)
        then show ?thesis unfolding sub by (rule extracted [OF p])
      next
        case False
        with loop True ne "1.prems"(3) show ?thesis by auto
      qed
    next
      case False
      from fill_total [OF inv, of fd w] obtain n buf1 w1 where
        fill: "gnl_fill_buffer cfg fd w buf = Some (n, buf1, w1)"
        by (cases "gnl_fill_buffer cfg fd w buf") auto
      from fill_calm [OF "1.prems"(1,2,3) fill] have nonneg: "\<not> n < 0"
        and c1: "calm_inv cfg fd N buf1 w1" by simp_all
      from loop False fill nonneg have rec: "gnl_loop cfg fd d buf1 w1 = Some (rc, ln, buf', w')"
        by simp
      have fd: "\<not> 0 \<le> gnl_find_delim buf d"
        by (simp add: find_delim_absent [OF absent])
      from fill_ok_post [OF inv fill nonneg] have "buf_inv cfg buf1" by simp
      from "1.IH" [OF refl fd False fill refl refl nonneg this "1.prems"(2) c1 rec]
      show ?thesis .
    qed
  qed
qed

lemma get_buffer_calm:
  assumes "handle_inv cfg fd g w" "roomy cfg N" "handle_calm cfg fd N g w"
  obtains buf w1 where "gnl_get_buffer cfg fd g w = (Some buf, g(fd \<mapsto> buf), w1)"
    "st_inv cfg fd buf w1" "calm_inv cfg fd N buf w1"
    "content fd buf w1 = handle_content fd g w"
proof (cases "g fd")
  case (Some b)
  then have "gnl_get_buffer cfg fd g w = (Some b, g, w)" by (simp add: gnl_get_buffer_def)
  moreover from Some have "g = g(fd \<mapsto> b)" by auto
  moreover from Some assms have "st_inv cfg fd b w" "calm_inv cfg fd N b w"
    by (simp_all add: handle_inv_def handle_calm_def calm_inv_def)
  moreover from Some have "content fd b w = handle_content fd g w"
    by (simp add: content_def handle_content_def)
  ultimately show ?thesis by (intro that [of b w]) simp_all
next
  case None
  from assms(3) have c: "calm w" by (simp add: handle_calm_def)
  have "SIZEOF_GNL_BUFFER \<le> SSIZE_MAX" by (simp add: SIZEOF_GNL_BUFFER_def SSIZE_MAX_def)
  with c obtain z w1 where a1: "next_alloc w SIZEOF_GNL_BUFFER = (Some z, w1)" "calm w1"
    "pending w1 = pending w" by (rule next_alloc_calm)
  from assms(2) have bs: "GNL_BUFFER_SIZE cfg \<le> SSIZE_MAX" by (simp add: roomy_def)
  with a1(2) obtain c' w2 where a2: "next_alloc w1 (GNL_BUFFER_SIZE cfg) = (Some c', w2)"
    "calm w2" "pending w2 = pending w1" by (rule next_alloc_calm)
  let ?buf = "\<lparr>data = replicate (GNL_BUFFER_SIZE cfg) c', size_b = GNL_BUFFER_SIZE cfg,
                len = 0, eof_reached = False\<rparr>"
  from None a1 a2 have "gnl_get_buffer cfg fd g w = (Some ?buf, g(fd \<mapsto> ?buf), w2)"
    by (simp add: gnl_get_buffer_def sys_malloc_def Let_def)
  moreover from bs have "st_inv cfg fd ?buf w2" by (simp add: st_inv_def buf_inv_def)
  moreover from None assms(3) a1 a2 have "calm_inv cfg fd N ?buf w2"
    by (simp add: calm_inv_def handle_calm_def)
  moreover from None a1 a2 have "content fd ?buf w2 = handle_content fd g w"
    by (simp add: content_def handle_content_def unconsumed_def)
  ultimately show ?thesis by (rule that)
qed

lemma call_calm:
  assumes "handle_inv cfg fd g w" "roomy cfg N" "handle_calm cfg fd N g w"
    "0 \<le> fd" "fd < GNL_MAX_FD cfg"
    "get_next_line_delim cfg fd (Some cell) d g w = Some (rc, out, g', w')"
  shows "rc \<noteq> GNL_ERROR \<and> handle_calm cfg fd N g' w'"
  using assms(1,2,3)
proof (rule get_buffer_calm)
  fix buf w1
  assume b: "gnl_get_buffer cfg fd g w = (Some buf, g(fd \<mapsto> buf), w1)"
    "st_inv cfg fd buf w1" "calm_inv cfg fd N buf w1"
  from b(2) have inv: "buf_inv cfg buf" by (simp add: st_inv_def)
  from gnl_loop_total [OF inv, of fd d w1] obtain rc1 ln buf' w2 where
    loop: "gnl_loop cfg fd d buf w1 = Some (rc1, ln, buf', w2)"
    by (cases "gnl_loop cfg fd d buf w1") auto
  with b(1) assms(4,5,6) have r: "rc = rc1" "g' = g(fd \<mapsto> buf')" "w' = w2"
    by (simp_all add: get_next_line_delim_def)
  from gnl_loop_calm [OF inv assms(2) b(3) loop] r show ?thesis
    by (simp add: handle_calm_def calm_inv_def)
qed

lemma ends_once_split:
  assumes "ends_once d seg"
  shows "takeWhile (\<lambda>x. x \<noteq> d) (seg @ ys) = butlast seg"
    "dropWhile (\<lambda>x. x \<noteq> d) (seg @ ys) = d # ys" "seg = butlast seg @ [d]"
proof -
  from assms show s: "seg = butlast seg @ [d]" by (auto simp: ends_once_def)
  from assms have n: "\<forall>x\<in>set (butlast seg). x \<noteq> d" by (auto simp: ends_once_def)
  have "takeWhile (\<lambda>x. x \<noteq> d) ((butlast seg @ [d]) @ ys) = butlast seg"
    using n by (simp add: takeWhile_append2)
  with s show "takeWhile (\<lambda>x. x \<noteq> d) (seg @ ys) = butlast seg" by simp
  have "dropWhile (\<lambda>x. x \<noteq> d) ((butlast seg @ [d]) @ ys) = d # ys"
    using n by (simp add: dropWhile_append2)
  with s show "dropWhile (\<lambda>x. x \<noteq> d) (seg @ ys) = d # ys" by simp
qed

lemma drained_content:
  "handle_inv cfg fd g w \<Longrightarrow> 0 < GNL_BUFFER_SIZE cfg \<Longrightarrow> drained fd g \<Longrightarrow>
     handle_content fd g w = []"
  by (auto simp: handle_inv_def drained_def handle_content_def st_inv_def unconsumed_def
      split: option.splits)

lemma call_calm_cases:
  assumes "handle_inv cfg fd g w" "roomy cfg N" "handle_calm cfg fd N g w"
    "0 \<le> fd" "fd < GNL_MAX_FD cfg"
  obtains
    (eof) g' w' where "handle_content fd g w = []"
      "get_next_line_delim cfg fd (Some cell) d g w = Some (GNL_EOF, Some None, g', w')"
      "drained fd g'"
  | (delim) g' w' where "d \<in> set (handle_content fd g w)"
      "get_next_line_delim cfg fd (Some cell) d g w =
         Some (GNL_LINE_READ,
               Some (Some (takeWhile (\<lambda>x. x \<noteq> d) (handle_content fd g w) @ [d, CHR 0x00])),
               g', w')"
      "handle_content fd g' w' = tl (dropWhile (\<lambda>x. x \<noteq> d) (handle_content fd g w))"
      "handle_inv cfg fd g' w'" "handle_calm cfg fd N g' w'"
  | (rest) g' w' where "d \<notin> set (handle_content fd g w)" "handle_content fd g w \<noteq> []"
      "get_next_line_delim cfg fd (Some cell) d g w =
         Some (GNL_LINE_READ, Some (Some (handle_content fd g w @ [CHR 0x00])), g', w')"
      "drained fd g'"
proof -
  let ?c = "handle_content fd g w"
  from assms(2) have bs: "0 < GNL_BUFFER_SIZE cfg" by (simp add: roomy_def)
  from call_total [OF assms(1), of "Some cell" d] obtain rc out g' w' where
    c: "get_next_line_delim cfg fd (Some cell) d g w = Some (rc, out, g', w')"
    by (cases "get_next_line_delim cfg fd (Some cell) d g w") auto
  from call_valid_post [OF assms(1,4,5) c] obtain ln where
    ln: "out = Some ln" "call_post cfg fd d g w rc ln g' w'" by blast
  from call_calm [OF assms c] have ne: "rc \<noteq> GNL_ERROR" and hc: "handle_calm cfg fd N g' w'"
    by simp_all
  from ln(2) have hi: "handle_inv cfg fd g' w'" by (rule call_post_inv)
  from ln(2) ne consider "rc = GNL_LINE_READ" | "rc = GNL_EOF" by (auto simp: call_post_def)
  then show thesis
  proof cases
    case 2
    with ln bs have "ln = None" "drained fd g'" "?c = []" by (simp_all add: call_post_def)
    with c ln(1) 2 show ?thesis by (intro eof [of g' w']) simp_all
  next
    case 1
    with ln(2) obtain l where l: "ln = Some l" "l = butlast l @ [CHR 0x00]" "butlast l \<noteq> []"
      "butlast l @ handle_content fd g' w' = ?c"
      "ends_once d (butlast l) \<or> d \<notin> set (butlast l) \<and> drained fd g'"
      by (cases ln) (auto simp: call_post_def)
    obtain seg where seg: "seg = butlast l" by simp
    note l' = l(2-5) [folded seg]
    show ?thesis
    proof (cases "ends_once d seg")
      case True
      note sp = ends_once_split(1,2) [OF True, of "handle_content fd g' w'", unfolded l'(3)]
      note sp3 = ends_once_split(3) [OF True]
      from True have "d \<in> set seg" by (auto simp: ends_once_def)
      with l'(3) have "d \<in> set ?c" by (metis Un_iff set_append)
      moreover from sp(1) sp3 have "takeWhile (\<lambda>x. x \<noteq> d) ?c @ [d] = seg" by simp
      then have "l = takeWhile (\<lambda>x. x \<noteq> d) ?c @ [d, CHR 0x00]" using l'(1) by simp
      moreover from sp(2) have "handle_content fd g' w' = tl (dropWhile (\<lambda>x. x \<noteq> d) ?c)"
        by simp
      ultimately show ?thesis using c ln(1) l(1) 1 hi hc
        by (intro delim [of g' w']) simp_all
    next
      case False
      with l'(4) have n: "d \<notin> set seg" "drained fd g'" by simp_all
      from drained_content [OF hi bs n(2)] l'(3) have e: "seg = ?c" by simp
      with n l'(1,2) c ln(1) l(1) 1 show ?thesis
        by (intro rest [of g' w']) simp_all
    qed
  qed
qed

lemma spec_split_delim:
  "d \<in> set xs \<Longrightarrow>
     spec_split d acc xs =
       (acc @ takeWhile (\<lambda>x. x \<noteq> d) xs @ [d]) # spec_split d [] (tl (dropWhile (\<lambda>x. x \<noteq> d) xs))"
  by (induction xs arbitrary: acc) auto

lemma spec_split_rest:
  "d \<notin> set xs \<Longrightarrow> spec_split d acc xs = (if acc @ xs = [] then [] else [acc @ xs])"
  by (induction xs arbitrary: acc) auto

lemma take_Cons_replicate: "k \<le> n \<Longrightarrow> take k (e # replicate n e) = replicate k e"
proof -
  assume "k \<le> n"
  have "take k (e # replicate n e) = take k (replicate (Suc n) e)" by simp
  also have "\<dots> = replicate (min k (Suc n)) e" by (rule take_replicate)
  finally show ?thesis using \<open>k \<le> n\<close> by (simp add: min_def)
qed

lemma take_append_replicate_Suc:
  "take n (xs @ replicate (Suc n) e) = take n (xs @ replicate n e)"
  by (simp add: take_Cons_replicate)

lemma spec_outcomes_empty: "spec_outcomes d [] n = replicate n (GNL_EOF, Some None)"
  by (simp add: spec_outcomes_def spec_segments_def)

lemma spec_outcomes_rest:
  "d \<notin> set xs \<Longrightarrow> xs \<noteq> [] \<Longrightarrow>
     spec_outcomes d xs (Suc n) =
       (GNL_LINE_READ, Some (Some (xs @ [CHR 0x00]))) # replicate n (GNL_EOF, Some None)"
  by (simp add: spec_outcomes_def spec_segments_def spec_split_rest take_Cons_replicate)

lemma spec_outcomes_delim:
  assumes "d \<in> set xs"
  shows "spec_outcomes d xs (Suc n) =
       (GNL_LINE_READ, Some (Some (takeWhile (\<lambda>x. x \<noteq> d) xs @ [d, CHR 0x00]))) #
       spec_outcomes d (tl (dropWhile (\<lambda>x. x \<noteq> d) xs)) n"
proof -
  let ?f = "\<lambda>s. (GNL_LINE_READ, Some (Some (s @ [CHR 0x00])))"
  let ?r = "tl (dropWhile (\<lambda>x. x \<noteq> d) xs)"
  have "spec_outcomes d xs (Suc n) =
      ?f (takeWhile (\<lambda>x. x \<noteq> d) xs @ [d]) #
      take n (map ?f (spec_segments d ?r) @ replicate (Suc n) (GNL_EOF, Some None))"
    using spec_split_delim [OF assms, of "[]"] by (simp add: spec_outcomes_def spec_segments_def)
  also have "take n (map ?f (spec_segments d ?r) @ replicate (Suc n) (GNL_EOF, Some None)) =
      spec_outcomes d ?r n"
    unfolding spec_outcomes_def by (rule take_append_replicate_Suc)
  finally show ?thesis by simp
qed

lemma gnl_calls_calm:
  assumes "handle_inv cfg fd g w" "roomy cfg N" "handle_calm cfg fd N g w"
    "0 \<le> fd" "fd < GNL_MAX_FD cfg"
  shows "map_option fst (gnl_calls cfg fd d n g w) =
           Some (spec_outcomes d (handle_content fd g w) n)"
  using assms(1,3)
proof (induction n arbitrary: g w)
  case 0
  show ?case by (simp add: spec_outcomes_def)
next
  case (Suc n)
  from Suc.prems(1) assms(2) Suc.prems(2) assms(4,5) show ?case
  proof (cases rule: call_calm_cases [where cell = None and d = d])
    case (eof g' w')
    from gnl_calls_drained [OF eof(3) assms(4,5), of d n w'] eof(1,2) show ?thesis
      by (simp add: spec_outcomes_empty)
  next
    case (delim g' w')
    from Suc.IH [OF delim(4,5)] delim(2,3) spec_outcomes_delim [OF delim(1), of n]
    show ?thesis by (auto split: option.splits)
  next
    case (rest g' w')
    from gnl_calls_drained [OF rest(4) assms(4,5), of d n w'] rest(3)
      spec_outcomes_rest [OF rest(1,2), of n]
    show ?thesis by simp
  qed
qed

lemma fresh_handle_calm:
  assumes "0 < GNL_BUFFER_SIZE cfg" "2 * (length xs + GNL_BUFFER_SIZE cfg) \<le> SSIZE_MAX"
    "calm w" "pending w fd = xs" "g fd = None"
  shows "handle_inv cfg fd g w" "roomy cfg (length xs)" "handle_calm cfg fd (length xs) g w"
    "handle_content fd g w = xs"
  using assms by (simp_all add: handle_inv_def roomy_def handle_calm_def handle_content_def)

lemma spec_outcomes_demo: "spec_outcomes (CHR '','') ''a,b,,c'' 5 = demo_outs"
  by (simp add: spec_outcomes_def spec_segments_def demo_outs_def GNL_LINE_READ_def GNL_EOF_def)

lemma calm_demo: "calm demo_world"
  by (simp add: calm_def demo_world_def)

section \<open>The properties of the specification\<close>

subsection \<open>C1: no loss, no duplication\<close>

text \<open>
  Claim C1. Let the chunk size be positive and let the entry of the descriptor \<open>fd\<close>
  satisfy the invariant (a descriptor that was never read has no entry). Make \<open>n\<close>
  successive calls of \<open>get_next_line_delim\<close> on \<open>fd\<close> with one delimiter, whichever
  reads and allocations fail on the way. Every call returns. If the last call returns
  \<open>GNL_EOF\<close>, the segments returned by the \<open>n\<close> calls, concatenated in call order, are
  exactly the bytes that were still to be returned before the first call: the unconsumed
  bytes of the buffer followed by the bytes the descriptor had yet to deliver. For a
  descriptor never read before, these are the bytes of its stream.
\<close>

theorem no_loss_no_duplication:
  assumes "0 < GNL_BUFFER_SIZE cfg" "handle_inv cfg fd g w"
  shows "\<exists>outs g' w'.
           gnl_calls cfg fd d n g w = Some (outs, g', w') \<and> length outs = n \<and>
           (outs \<noteq> [] \<and> fst (last outs) = GNL_EOF \<longrightarrow>
              concat (map segment_of outs) = handle_content fd g w) \<and>
           (g fd = None \<longrightarrow> handle_content fd g w = pending w fd)"
proof -
  from gnl_calls_total [OF assms(2), of d n] obtain outs g' w' where
    r: "gnl_calls cfg fd d n g w = Some (outs, g', w')"
    by (cases "gnl_calls cfg fd d n g w") auto
  note c = gnl_calls_concat [OF assms(2) r]
  have "concat (map segment_of outs) = handle_content fd g w"
    if "outs \<noteq> []" "fst (last outs) = GNL_EOF"
    using gnl_calls_last_eof [OF assms(2,1) r that] c by simp
  moreover have "g fd = None \<longrightarrow> handle_content fd g w = pending w fd"
    by (simp add: handle_content_def)
  ultimately show ?thesis using r c by (intro exI [of _ outs] exI [of _ g'] exI [of _ w']) simp
qed

text \<open>
  Five calls on the stream \<open>a,b,,c\<close> with a chunk size of 4: the last one returns
  \<open>GNL_EOF\<close> and the segments add up to the stream.
\<close>

theorem no_loss_no_duplication_witness:
  "\<exists>outs g' w'.
     gnl_calls demo_config 3 (CHR '','') 5 (\<lambda>_. None) demo_world = Some (outs, g', w') \<and>
     fst (last outs) = GNL_EOF \<and>
     map segment_of outs = [''a,'', ''b,'', '','', ''c'', []] \<and>
     concat (map segment_of outs) = ''a,b,,c''"
proof -
  have h1: "0 < GNL_BUFFER_SIZE demo_config" by (simp add: demo_config_def)
  have h2: "handle_inv demo_config 3 (\<lambda>_. None) demo_world" by (simp add: handle_inv_def)
  from no_loss_no_duplication [OF h1 h2, of "CHR '',''" 5] obtain outs g' w' where
    r: "gnl_calls demo_config 3 (CHR '','') 5 (\<lambda>_. None) demo_world = Some (outs, g', w')"
      "outs \<noteq> [] \<and> fst (last outs) = GNL_EOF \<longrightarrow>
         concat (map segment_of outs) = handle_content 3 (\<lambda>_. None) demo_world"
    by blast
  from r(1) demo_run have o: "outs = demo_outs" by simp
  then have e: "outs \<noteq> []" "fst (last outs) = GNL_EOF"
    by (simp_all add: demo_outs_def GNL_EOF_def)
  with r(2) have "concat (map segment_of outs) = handle_content 3 (\<lambda>_. None) demo_world"
    by simp
  also have "\<dots> = ''a,b,,c''" by (simp add: handle_content_def demo_world_def)
  finally have "concat (map segment_of outs) = ''a,b,,c''" .
  moreover have "map segment_of outs = [''a,'', ''b,'', '','', ''c'', []]"
    by (simp add: o demo_outs_def segment_of_def)
  ultimately show ?thesis using r(1) e(2)
    by (intro exI [of _ outs] exI [of _ g'] exI [of _ w']) simp
qed

subsection \<open>C2: delimiter-terminated segments\<close>

text \<open>
  Claim C2. A run of \<open>n\<close> successive calls as above, with any chunk size, returns
  \<open>n\<close> outcomes. Take a call of the run that returns \<open>GNL_LINE_READ\<close>. Its segment either ends with the delimiter and holds it
  nowhere else, so that the delimiter occurs exactly once, as the final byte; or it holds
  no delimiter at all, and then every later call of the run returns \<open>GNL_EOF\<close> with a
  null line: the segment is the last one, returned because the stream ended without a
  trailing delimiter.
\<close>

theorem delimiter_terminated_segments:
  assumes "handle_inv cfg fd g w"
  shows "\<exists>outs g' w'.
           gnl_calls cfg fd d n g w = Some (outs, g', w') \<and> length outs = n \<and>
           (\<forall>i<n. fst (outs ! i) = GNL_LINE_READ \<longrightarrow>
              ends_once d (segment_of (outs ! i)) \<and> count_list (segment_of (outs ! i)) d = 1 \<or>
              d \<notin> set (segment_of (outs ! i)) \<and>
              (\<forall>j. i < j \<and> j < n \<longrightarrow> outs ! j = (GNL_EOF, Some None)))"
proof -
  from gnl_calls_total [OF assms, of d n] obtain outs g' w' where
    r: "gnl_calls cfg fd d n g w = Some (outs, g', w')"
    by (cases "gnl_calls cfg fd d n g w") auto
  from gnl_calls_concat [OF assms r] have l: "length outs = n" by simp
  have "ends_once d (segment_of (outs ! i)) \<and> count_list (segment_of (outs ! i)) d = 1 \<or>
        d \<notin> set (segment_of (outs ! i)) \<and>
        (\<forall>j. i < j \<and> j < n \<longrightarrow> outs ! j = (GNL_EOF, Some None))"
    if "i < n" "fst (outs ! i) = GNL_LINE_READ" for i
    using gnl_calls_delimited [OF assms r, of i] that l by (auto dest: ends_once_count)
  with r l show ?thesis by (intro exI [of _ outs] exI [of _ g'] exI [of _ w']) simp
qed

text \<open>
  In the run above the second segment ends with the delimiter; the fourth does not, and
  the call after it returns \<open>GNL_EOF\<close>.
\<close>

theorem delimiter_terminated_segments_witness:
  "\<exists>outs g' w'.
     gnl_calls demo_config 3 (CHR '','') 5 (\<lambda>_. None) demo_world = Some (outs, g', w') \<and>
     fst (outs ! 1) = GNL_LINE_READ \<and> segment_of (outs ! 1) = ''b,'' \<and>
     ends_once (CHR '','') (segment_of (outs ! 1)) \<and>
     fst (outs ! 3) = GNL_LINE_READ \<and> segment_of (outs ! 3) = ''c'' \<and>
     \<not> ends_once (CHR '','') (segment_of (outs ! 3)) \<and> outs ! 4 = (GNL_EOF, Some None)"
proof -
  have h2: "handle_inv demo_config 3 (\<lambda>_. None) demo_world" by (simp add: handle_inv_def)
  from delimiter_terminated_segments [OF h2, of "CHR '',''" 5] obtain outs g' w' where
    r: "gnl_calls demo_config 3 (CHR '','') 5 (\<lambda>_. None) demo_world = Some (outs, g', w')"
    and t: "\<And>i. i < 5 \<Longrightarrow> fst (outs ! i) = GNL_LINE_READ \<Longrightarrow>
        ends_once (CHR '','') (segment_of (outs ! i)) \<and>
          count_list (segment_of (outs ! i)) (CHR '','') = 1 \<or>
        CHR '','' \<notin> set (segment_of (outs ! i)) \<and>
        (\<forall>j. i < j \<and> j < 5 \<longrightarrow> outs ! j = (GNL_EOF, Some None))"
    by blast
  from r demo_run have o: "outs = demo_outs" by simp
  have s: "segment_of (demo_outs ! 1) = ''b,''" "segment_of (demo_outs ! 3) = ''c''"
    "fst (demo_outs ! 1) = GNL_LINE_READ" "fst (demo_outs ! 3) = GNL_LINE_READ"
    by (simp_all add: demo_outs_def segment_of_def GNL_LINE_READ_def)
  have n3: "\<not> ends_once (CHR '','') (segment_of (demo_outs ! 3))"
    by (simp add: s ends_once_def)
  have in1: "CHR '','' \<in> set (segment_of (demo_outs ! 1))"
    by (simp add: demo_outs_def segment_of_def)
  from t [of 1] s(3) in1 have a: "ends_once (CHR '','') (segment_of (demo_outs ! 1))"
    unfolding o by fastforce
  from t [of 3] s(4) n3
  have "\<forall>j. 3 < j \<and> j < 5 \<longrightarrow> demo_outs ! j = (GNL_EOF, Some None)"
    unfolding o by fastforce
  then have b: "demo_outs ! 4 = (GNL_EOF, Some None)" by simp
  from r s a b n3 show ?thesis unfolding o
    by (intro exI [of _ demo_outs] exI [of _ g'] exI [of _ w']) simp
qed

subsection \<open>C3: the scenario with a custom delimiter\<close>

text \<open>
  Claim C3. A descriptor never read before whose stream holds the six bytes
  \<open>a,b,,c\<close>, a positive chunk size for which the buffer can be allocated, no failing
  read and no failing allocation; the reads may be as short as the host likes. Five
  successive calls with the delimiter \<open>,\<close> return, in this order, the segments
  \<open>a,\<close> and \<open>b,\<close>, the delimiter alone, and \<open>c\<close>, each as a zero-terminated
  line, and then \<open>GNL_EOF\<close> with a null line.
\<close>

theorem scenario_custom_delimiter:
  assumes "0 < GNL_BUFFER_SIZE cfg" "2 * (6 + GNL_BUFFER_SIZE cfg) \<le> SSIZE_MAX"
    "calm w" "pending w fd = ''a,b,,c''" "g fd = None" "0 \<le> fd" "fd < GNL_MAX_FD cfg"
  shows "map_option fst (gnl_calls cfg fd (CHR '','') 5 g w) =
           Some [(GNL_LINE_READ, Some (Some (''a,'' @ [CHR 0x00]))),
                 (GNL_LINE_READ, Some (Some (''b,'' @ [CHR 0x00]))),
                 (GNL_LINE_READ, Some (Some ('','' @ [CHR 0x00]))),
                 (GNL_LINE_READ, Some (Some (''c'' @ [CHR 0x00]))),
                 (GNL_EOF, Some None)] \<and>
         map_option (map segment_of \<circ> fst) (gnl_calls cfg fd (CHR '','') 5 g w) =
           Some [''a,'', ''b,'', '','', ''c'', []]"
proof -
  have l: "2 * (length ''a,b,,c'' + GNL_BUFFER_SIZE cfg) \<le> SSIZE_MAX"
    using assms(2) by simp
  note a = fresh_handle_calm [where g = g and fd = fd, OF assms(1) l assms(3,4,5)]
  from gnl_calls_calm [OF a(1,2,3) assms(6,7), of "CHR '',''" 5] a(4)
  have r: "map_option fst (gnl_calls cfg fd (CHR '','') 5 g w) = Some demo_outs"
    by (simp add: spec_outcomes_demo)
  then obtain g' w' where "gnl_calls cfg fd (CHR '','') 5 g w = Some (demo_outs, g', w')"
    by auto
  then have "map_option (map segment_of \<circ> fst) (gnl_calls cfg fd (CHR '','') 5 g w) =
      Some [''a,'', ''b,'', '','', ''c'', []]"
    by (simp add: demo_outs_def segment_of_def)
  with r show ?thesis by (simp add: demo_outs_def GNL_LINE_READ_def GNL_EOF_def)
qed

text \<open>
  The scenario under the default configuration, with a chunk size of 4096.
\<close>

theorem scenario_custom_delimiter_witness:
  "map_option fst (gnl_calls default_config 3 (CHR '','') 5 (\<lambda>_. None) demo_world) =
     Some [(GNL_LINE_READ, Some (Some (''a,'' @ [CHR 0x00]))),
           (GNL_LINE_READ, Some (Some (''b,'' @ [CHR 0x00]))),
           (GNL_LINE_READ, Some (Some ('','' @ [CHR 0x00]))),
           (GNL_LINE_READ, Some (Some (''c'' @ [CHR 0x00]))),
           (GNL_EOF, Some None)] \<and>
   map_option (map segment_of \<circ> fst)
       (gnl_calls default_config 3 (CHR '','') 5 (\<lambda>_. None) demo_world) =
     Some [''a,'', ''b,'', '','', ''c'', []]"
proof -
  have h: "0 < GNL_BUFFER_SIZE default_config"
    "2 * (6 + GNL_BUFFER_SIZE default_config) \<le> SSIZE_MAX"
    "calm demo_world" "pending demo_world 3 = ''a,b,,c''"
    "(\<lambda>_. None :: t_gnl_buffer option) (3::int) = None" "(0::int) \<le> 3"
    "3 < GNL_MAX_FD default_config"
    by (simp_all add: default_config_def SSIZE_MAX_def calm_def demo_world_def)
  show ?thesis
    by (rule scenario_custom_delimiter [where g = "\<lambda>_. None" and fd = 3, OF h])
qed

subsection \<open>C4: chunk-boundary independence\<close>

text \<open>
  Claim C4. Take two configurations with positive chunk sizes for which the buffer can
  be allocated, two worlds without failing reads or allocations whose descriptor \<open>fd\<close>
  holds the same bytes \<open>xs\<close>, and registries in which \<open>fd\<close> was never read. For every
  \<open>n\<close>, the return codes and lines of \<open>n\<close> successive calls are the same under both
  configurations, and they are the ones the specification prescribes: one line for each
  segment of \<open>xs\<close>, in order, then \<open>GNL_EOF\<close>. The read scripts of the two worlds
  are arbitrary, so the outcome does not depend on how short the reads are either.
\<close>

theorem chunk_size_independent:
  assumes "0 < GNL_BUFFER_SIZE cfg1" "0 < GNL_BUFFER_SIZE cfg2"
    "2 * (length xs + GNL_BUFFER_SIZE cfg1) \<le> SSIZE_MAX"
    "2 * (length xs + GNL_BUFFER_SIZE cfg2) \<le> SSIZE_MAX"
    "calm w1" "calm w2" "pending w1 fd = xs" "pending w2 fd = xs"
    "g1 fd = None" "g2 fd = None" "0 \<le> fd" "fd < GNL_MAX_FD cfg1" "fd < GNL_MAX_FD cfg2"
  shows "map_option fst (gnl_calls cfg1 fd d n g1 w1) = Some (spec_outcomes d xs n) \<and>
         map_option fst (gnl_calls cfg2 fd d n g2 w2) = Some (spec_outcomes d xs n) \<and>
         map_option fst (gnl_calls cfg1 fd d n g1 w1) =
         map_option fst (gnl_calls cfg2 fd d n g2 w2)"
proof -
  note a = fresh_handle_calm [where g = g1 and fd = fd, OF assms(1,3,5,7,9)]
  note b = fresh_handle_calm [where g = g2 and fd = fd, OF assms(2,4,6,8,10)]
  from gnl_calls_calm [OF a(1,2,3) assms(11,12), of d n] a(4)
  have 1: "map_option fst (gnl_calls cfg1 fd d n g1 w1) = Some (spec_outcomes d xs n)" by simp
  from gnl_calls_calm [OF b(1,2,3) assms(11,13), of d n] b(4)
  have 2: "map_option fst (gnl_calls cfg2 fd d n g2 w2) = Some (spec_outcomes d xs n)" by simp
  from 1 2 have "map_option fst (gnl_calls cfg1 fd d n g1 w1) =
      map_option fst (gnl_calls cfg2 fd d n g2 w2)" by (simp only:)
  with 1 2 show ?thesis by (intro conjI)
qed

text \<open>
  Chunk size 1 against the default 4096 on the stream \<open>a,b,,c\<close>, also when the
  reads are short.
\<close>

theorem chunk_size_independent_witness:
  "map_option fst (gnl_calls unit_config 3 (CHR '','') 5 (\<lambda>_. None) demo_world) = Some demo_outs \<and>
   map_option fst (gnl_calls default_config 3 (CHR '','') 5 (\<lambda>_. None) demo_world) =
     Some demo_outs \<and>
   map_option fst (gnl_calls unit_config 3 (CHR '','') 5 (\<lambda>_. None)
     (demo_world\<lparr>read_script := [ReadShort 0, ReadShort 2]\<rparr>)) =
   map_option fst (gnl_calls default_config 3 (CHR '','') 5 (\<lambda>_. None) demo_world)"
proof -
  let ?w = "demo_world\<lparr>read_script := [ReadShort 0, ReadShort 2]\<rparr>"
  have h: "0 < GNL_BUFFER_SIZE unit_config" "0 < GNL_BUFFER_SIZE default_config"
    "2 * (length ''a,b,,c'' + GNL_BUFFER_SIZE unit_config) \<le> SSIZE_MAX"
    "2 * (length ''a,b,,c'' + GNL_BUFFER_SIZE default_config) \<le> SSIZE_MAX"
    "calm demo_world" "calm ?w" "pending demo_world 3 = ''a,b,,c''" "pending ?w 3 = ''a,b,,c''"
    "(\<lambda>_. None :: t_gnl_buffer option) (3::int) = None" "(0::int) \<le> 3"
    "3 < GNL_MAX_FD unit_config" "3 < GNL_MAX_FD default_config"
    by (simp_all add: unit_config_def default_config_def SSIZE_MAX_def calm_def demo_world_def)
  from chunk_size_independent [where ?g1.0 = "\<lambda>_. None" and ?g2.0 = "\<lambda>_. None" and fd = 3
      and d = "CHR '',''" and n = 5, OF h(1,2,3,4,5,5,7,7,9,9,10,11,12)]
  have a: "map_option fst (gnl_calls unit_config 3 (CHR '','') 5 (\<lambda>_. None) demo_world) =
      Some demo_outs"
    "map_option fst (gnl_calls default_config 3 (CHR '','') 5 (\<lambda>_. None) demo_world) =
      Some demo_outs"
    by (simp_all add: spec_outcomes_demo)
  from chunk_size_independent [where ?g1.0 = "\<lambda>_. None" and ?g2.0 = "\<lambda>_. None" and fd = 3
      and d = "CHR '',''" and n = 5, OF h(1,2,3,4,6,5,8,7,9,9,10,11,12)]
  have "map_option fst (gnl_calls unit_config 3 (CHR '','') 5 (\<lambda>_. None) ?w) =
      map_option fst (gnl_calls default_config 3 (CHR '','') 5 (\<lambda>_. None) demo_world)"
    by simp
  with a show ?thesis by simp
qed

subsection \<open>C5: growth of the capacity\<close>

text \<open>
  Claim C5, amended. Let the store hold \<open>size\<close> bytes with \<open>len <= size\<close>,
  \<open>0 < size <= SSIZE_MAX\<close> and \<open>len + needed <= 2 ^ 63\<close>. If \<open>size - len >= needed\<close>,
  \<open>gnl_ensure_capacity\<close> returns 0 and changes nothing. Otherwise let \<open>k\<close> be the number
  of doublings after which \<open>size * 2 ^ k - len >= needed\<close> holds for the first time. The
  function asks \<open>realloc\<close> for \<open>size * 2 ^ k\<close> bytes. When that succeeds it returns 0, the
  capacity is \<open>size * 2 ^ k\<close>, and the first \<open>len\<close> bytes of the store, \<open>len\<close> and
  \<open>eof_reached\<close> are what they were. When it fails the function returns -1 and changes
  nothing.
\<close>

theorem ensure_capacity_doubles:
  assumes "len buf \<le> size_b buf" "length (data buf) = size_b buf"
    "0 < size_b buf" "size_b buf \<le> SSIZE_MAX" "len buf + needed \<le> Suc SSIZE_MAX"
  shows "(needed \<le> size_b buf - len buf \<longrightarrow>
            gnl_ensure_capacity w buf needed = Some (0, buf, w)) \<and>
         (size_b buf - len buf < needed \<longrightarrow>
            (\<exists>k. needed \<le> size_b buf * 2 ^ k - len buf \<and>
               (\<forall>j<k. size_b buf * 2 ^ j - len buf < needed) \<and>
               (case sys_realloc w (data buf) (size_b buf * 2 ^ k) of
                  (None, w') \<Rightarrow> gnl_ensure_capacity w buf needed = Some (- 1, buf, w')
                | (Some new_data, w') \<Rightarrow>
                    gnl_ensure_capacity w buf needed =
                      Some (0, buf\<lparr>data := new_data, size_b := size_b buf * 2 ^ k\<rparr>, w') \<and>
                    length new_data = size_b buf * 2 ^ k \<and>
                    take (len buf) new_data = take (len buf) (data buf))))"
proof (intro conjI impI)
  from assms SSIZE_MAX_less have lt: "size_b buf < SIZE_MOD" by simp
  with assms have sub: "size_sub (size_b buf) (len buf) = size_b buf - len buf"
    by (intro size_sub_eq) simp_all
  {
    assume "needed \<le> size_b buf - len buf"
    with sub show "gnl_ensure_capacity w buf needed = Some (0, buf, w)"
      by (simp add: gnl_ensure_capacity_def)
  }
  assume small: "size_b buf - len buf < needed"
  from grow_loop_doubling [OF assms(3,1) lt assms(5)] obtain k where
    k: "grow_loop (size_b buf) (len buf) needed = Some (size_b buf * 2 ^ k)"
      "needed \<le> size_b buf * 2 ^ k - len buf" "\<forall>j<k. size_b buf * 2 ^ j - len buf < needed"
    by blast
  let ?n = "size_b buf * 2 ^ k"
  obtain r w' where r: "sys_realloc w (data buf) ?n = (r, w')"
    by (cases "sys_realloc w (data buf) ?n")
  have "case sys_realloc w (data buf) ?n of
          (None, w') \<Rightarrow> gnl_ensure_capacity w buf needed = Some (- 1, buf, w')
        | (Some new_data, w') \<Rightarrow>
            gnl_ensure_capacity w buf needed =
              Some (0, buf\<lparr>data := new_data, size_b := ?n\<rparr>, w') \<and>
            length new_data = ?n \<and> take (len buf) new_data = take (len buf) (data buf)"
    using r
  proof (cases rule: sys_realloc_cases)
    case fail
    with r small sub k(1) show ?thesis by (simp add: gnl_ensure_capacity_def)
  next
    case (ok c)
    from assms(3) have "size_b buf \<le> ?n" by simp
    with assms(1,2) have "length (take ?n (data buf) @ replicate (?n - length (data buf)) c) = ?n"
      "take (len buf) (take ?n (data buf) @ replicate (?n - length (data buf)) c) =
         take (len buf) (data buf)"
      by simp_all
    with ok r small sub k(1) show ?thesis by (simp add: gnl_ensure_capacity_def)
  qed
  with k(2,3) show "\<exists>k. needed \<le> size_b buf * 2 ^ k - len buf \<and>
               (\<forall>j<k. size_b buf * 2 ^ j - len buf < needed) \<and>
               (case sys_realloc w (data buf) (size_b buf * 2 ^ k) of
                  (None, w') \<Rightarrow> gnl_ensure_capacity w buf needed = Some (- 1, buf, w')
                | (Some new_data, w') \<Rightarrow>
                    gnl_ensure_capacity w buf needed =
                      Some (0, buf\<lparr>data := new_data, size_b := size_b buf * 2 ^ k\<rparr>, w') \<and>
                    length new_data = size_b buf * 2 ^ k \<and>
                    take (len buf) new_data = take (len buf) (data buf))"
    by (intro exI [of _ k]) simp
qed

text \<open>
  Claim C5 as it is stated, for every buffer and every requested amount, does not hold.
  With a full buffer of 4 bytes and a request for 4 more, a refused \<open>realloc\<close> leaves
  the capacity at 4 and the function returns -1, where the claim has the capacity
  doubled. With a capacity of 0 and a request for one byte the doubling never ends, and
  the function does not return.
\<close>

theorem ensure_capacity_counterexample:
  "size_b half_read_buffer - len half_read_buffer < 4 \<and> size_b half_read_buffer = 4 \<and>
   gnl_ensure_capacity stuck_world half_read_buffer 4 =
     Some (- 1, half_read_buffer, stuck_world\<lparr>alloc_script := []\<rparr>) \<and>
   size_b empty_buffer - len empty_buffer < 1 \<and>
   gnl_ensure_capacity quiet_world empty_buffer 1 = None"
proof -
  have "gnl_ensure_capacity stuck_world half_read_buffer 4 =
     Some (- 1, half_read_buffer, stuck_world\<lparr>alloc_script := []\<rparr>)"
    by (simp add: half_read_buffer_def stuck_world_def eval_defs)
  moreover have "gnl_ensure_capacity quiet_world empty_buffer 1 = None"
    using grow_loop_from_zero
    by (simp add: gnl_ensure_capacity_def empty_buffer_def size_sub_def SIZE_MOD_def)
  ultimately show ?thesis by (simp add: half_read_buffer_def empty_buffer_def)
qed

text \<open>
  A full buffer of 4 bytes and a request for 20 more: three doublings, to 32 bytes. A
  request for nothing changes nothing.
\<close>

theorem ensure_capacity_doubles_witness:
  "len half_read_buffer \<le> size_b half_read_buffer \<and>
   length (data half_read_buffer) = size_b half_read_buffer \<and>
   0 < size_b half_read_buffer \<and> size_b half_read_buffer \<le> SSIZE_MAX \<and>
   len half_read_buffer + 20 \<le> Suc SSIZE_MAX \<and>
   size_b half_read_buffer - len half_read_buffer < 20 \<and>
   (\<exists>k. 20 \<le> size_b half_read_buffer * 2 ^ k - len half_read_buffer \<and>
      (\<forall>j<k. size_b half_read_buffer * 2 ^ j - len half_read_buffer < 20) \<and>
      (case sys_realloc quiet_world (data half_read_buffer) (size_b half_read_buffer * 2 ^ k) of
         (None, w') \<Rightarrow>
           gnl_ensure_capacity quiet_world half_read_buffer 20 = Some (- 1, half_read_buffer, w')
       | (Some new_data, w') \<Rightarrow>
           gnl_ensure_capacity quiet_world half_read_buffer 20 =
             Some (0, half_read_buffer\<lparr>data := new_data,
                        size_b := size_b half_read_buffer * 2 ^ k\<rparr>, w') \<and>
           length new_data = size_b half_read_buffer * 2 ^ k \<and>
           take (len half_read_buffer) new_data =
             take (len half_read_buffer) (data half_read_buffer))) \<and>
   gnl_ensure_capacity quiet_world half_read_buffer 20 =
     Some (0, half_read_buffer\<lparr>data := ''abcd'' @ replicate 28 (CHR 0x00), size_b := 32\<rparr>,
           quiet_world) \<and>
   gnl_ensure_capacity quiet_world half_read_buffer 0 = Some (0, half_read_buffer, quiet_world)"
proof -
  have h: "len half_read_buffer \<le> size_b half_read_buffer"
    "length (data half_read_buffer) = size_b half_read_buffer"
    "0 < size_b half_read_buffer" "size_b half_read_buffer \<le> SSIZE_MAX"
    "len half_read_buffer + 20 \<le> Suc SSIZE_MAX" "len half_read_buffer + 0 \<le> Suc SSIZE_MAX"
    by (simp_all add: half_read_buffer_def SSIZE_MAX_def)
  have s: "size_b half_read_buffer - len half_read_buffer < 20"
    "0 \<le> size_b half_read_buffer - len half_read_buffer"
    by (simp_all add: half_read_buffer_def)
  note t = ensure_capacity_doubles [OF h(1,2,3,4,5), of quiet_world]
  note u = ensure_capacity_doubles [OF h(1,2,3,4,6), of quiet_world]
  from t s(1) have a: "\<exists>k. 20 \<le> size_b half_read_buffer * 2 ^ k - len half_read_buffer \<and>
      (\<forall>j<k. size_b half_read_buffer * 2 ^ j - len half_read_buffer < 20) \<and>
      (case sys_realloc quiet_world (data half_read_buffer) (size_b half_read_buffer * 2 ^ k) of
         (None, w') \<Rightarrow>
           gnl_ensure_capacity quiet_world half_read_buffer 20 = Some (- 1, half_read_buffer, w')
       | (Some new_data, w') \<Rightarrow>
           gnl_ensure_capacity quiet_world half_read_buffer 20 =
             Some (0, half_read_buffer\<lparr>data := new_data,
                        size_b := size_b half_read_buffer * 2 ^ k\<rparr>, w') \<and>
           length new_data = size_b half_read_buffer * 2 ^ k \<and>
           take (len half_read_buffer) new_data =
             take (len half_read_buffer) (data half_read_buffer))"
    by (rule conjunct2 [THEN mp])
  from u s(2) have b: "gnl_ensure_capacity quiet_world half_read_buffer 0 =
      Some (0, half_read_buffer, quiet_world)"
    by (rule conjunct1 [THEN mp])
  have c: "gnl_ensure_capacity quiet_world half_read_buffer 20 =
     Some (0, half_read_buffer\<lparr>data := ''abcd'' @ replicate 28 (CHR 0x00), size_b := 32\<rparr>,
           quiet_world)"
    by (simp add: half_read_buffer_def quiet_world_def eval_defs)
  from h s a b c show ?thesis by (intro conjI) 
qed

subsection \<open>C6: end of stream and read errors in a refill\<close>

text \<open>
  Claim C6. Consider a refill in which \<open>gnl_ensure_capacity\<close> succeeded, so that
  \<open>read\<close> is called. If \<open>read\<close> returns no byte, \<open>gnl_fill_buffer\<close> returns 0 and
  \<open>eof_reached\<close> is set. If \<open>read\<close> fails, \<open>gnl_fill_buffer\<close> returns -1 and
  \<open>eof_reached\<close> is what it was before the refill; the loop that has arrived at this
  refill returns \<open>GNL_ERROR\<close> with a null line, and so does the call of
  \<open>get_next_line_delim\<close> on a descriptor with this buffer.
\<close>

theorem refill_end_of_stream_and_read_error:
  assumes "gnl_ensure_capacity w buf (GNL_BUFFER_SIZE cfg) = Some (rc, buf1, w1)" "\<not> rc < 0"
  shows "(sys_read w1 fd (GNL_BUFFER_SIZE cfg) = (Some [], w2) \<longrightarrow>
            (\<exists>buf'. gnl_fill_buffer cfg fd w buf = Some (0, buf', w2) \<and> eof_reached buf')) \<and>
         (sys_read w1 fd (GNL_BUFFER_SIZE cfg) = (None, w2) \<longrightarrow>
            gnl_fill_buffer cfg fd w buf = Some (- 1, buf1, w2) \<and>
            eof_reached buf1 = eof_reached buf \<and>
            (\<not> eof_reached buf \<and> d \<notin> set (unconsumed buf) \<longrightarrow>
               gnl_loop cfg fd d buf w = Some (GNL_ERROR, None, buf1, w2) \<and>
               (0 \<le> fd \<and> fd < GNL_MAX_FD cfg \<and> g fd = Some buf \<longrightarrow>
                  get_next_line_delim cfg fd (Some cell) d g w =
                    Some (GNL_ERROR, Some None, g(fd \<mapsto> buf1), w2))))"
proof (intro conjI impI)
  assume r: "sys_read w1 fd (GNL_BUFFER_SIZE cfg) = (Some [], w2)"
  with assms have "gnl_fill_buffer cfg fd w buf = Some (0, filled buf1 [], w2)"
    by (simp add: gnl_fill_buffer_def filled_def Let_def to_ssize_def)
  moreover have "eof_reached (filled buf1 [])"
    by (simp add: filled_def Let_def to_ssize_def)
  ultimately show "\<exists>buf'. gnl_fill_buffer cfg fd w buf = Some (0, buf', w2) \<and> eof_reached buf'"
    by blast
next
  assume r: "sys_read w1 fd (GNL_BUFFER_SIZE cfg) = (None, w2)"
  with assms show f: "gnl_fill_buffer cfg fd w buf = Some (- 1, buf1, w2)"
    by (simp add: gnl_fill_buffer_def)
  from ensure_pending [OF assms(1)] show "eof_reached buf1 = eof_reached buf" by simp
  assume a: "\<not> eof_reached buf \<and> d \<notin> set (unconsumed buf)"
  then have "d \<notin> set (unconsumed buf)" by simp
  from gnl_loop_absent [OF this, of cfg fd w] a f
  show l: "gnl_loop cfg fd d buf w = Some (GNL_ERROR, None, buf1, w2)" by simp
  assume v: "0 \<le> fd \<and> fd < GNL_MAX_FD cfg \<and> g fd = Some buf"
  then have "gnl_get_buffer cfg fd g w = (Some buf, g, w)" by (simp add: gnl_get_buffer_def)
  with v l show "get_next_line_delim cfg fd (Some cell) d g w =
                    Some (GNL_ERROR, Some None, g(fd \<mapsto> buf1), w2)"
    by (simp add: get_next_line_delim_def)
qed

text \<open>
  An empty buffer on a descriptor that has nothing to deliver, and the same buffer
  when the next read fails.
\<close>

theorem refill_end_of_stream_and_read_error_witness:
  "(\<exists>buf' w2. gnl_fill_buffer demo_config 3 quiet_world fresh_buffer = Some (0, buf', w2) \<and>
       eof_reached buf') \<and>
   gnl_fill_buffer demo_config 3 (quiet_world\<lparr>read_script := [ReadError]\<rparr>) fresh_buffer =
     Some (- 1, fresh_buffer, quiet_world) \<and>
   gnl_loop demo_config 3 (CHR '','') fresh_buffer (quiet_world\<lparr>read_script := [ReadError]\<rparr>) =
     Some (GNL_ERROR, None, fresh_buffer, quiet_world) \<and>
   get_next_line_delim demo_config 3 (Some None) (CHR '','') ((\<lambda>_. None)(3 \<mapsto> fresh_buffer))
       (quiet_world\<lparr>read_script := [ReadError]\<rparr>) =
     Some (GNL_ERROR, Some None, (\<lambda>_. None)(3 \<mapsto> fresh_buffer), quiet_world)"
proof -
  let ?bad = "quiet_world\<lparr>read_script := [ReadError]\<rparr>"
  have e1: "gnl_ensure_capacity quiet_world fresh_buffer (GNL_BUFFER_SIZE demo_config) =
      Some (0, fresh_buffer, quiet_world)"
    by (simp add: gnl_ensure_capacity_def fresh_buffer_def demo_config_def size_sub_def
        SIZE_MOD_def)
  have e2: "gnl_ensure_capacity ?bad fresh_buffer (GNL_BUFFER_SIZE demo_config) =
      Some (0, fresh_buffer, ?bad)"
    by (simp add: gnl_ensure_capacity_def fresh_buffer_def demo_config_def size_sub_def
        SIZE_MOD_def)
  have z: "\<not> (0::int) < 0" by simp
  obtain w2 where r1: "sys_read quiet_world 3 (GNL_BUFFER_SIZE demo_config) = (Some [], w2)"
    by (simp add: sys_read_def deliver_def quiet_world_def)
  have r2: "sys_read ?bad 3 (GNL_BUFFER_SIZE demo_config) = (None, quiet_world)"
    by (simp add: sys_read_def quiet_world_def)
  have a: "\<not> eof_reached fresh_buffer \<and> CHR '','' \<notin> set (unconsumed fresh_buffer)"
    by (simp add: fresh_buffer_def unconsumed_def)
  have v: "(0::int) \<le> 3 \<and> 3 < GNL_MAX_FD demo_config \<and>
      ((\<lambda>_. None)(3 \<mapsto> fresh_buffer)) 3 = Some fresh_buffer"
    by (simp add: demo_config_def)
  from refill_end_of_stream_and_read_error [OF e1 z, of 3 w2] r1
  have "\<exists>buf'. gnl_fill_buffer demo_config 3 quiet_world fresh_buffer = Some (0, buf', w2) \<and>
       eof_reached buf'" by simp
  then have "\<exists>buf' w2. gnl_fill_buffer demo_config 3 quiet_world fresh_buffer = Some (0, buf', w2) \<and>
       eof_reached buf'" by blast
  moreover
  from refill_end_of_stream_and_read_error [OF e2 z, of 3 quiet_world "CHR '',''"
      "(\<lambda>_. None)(3 \<mapsto> fresh_buffer)" None] r2 a v
  have "gnl_fill_buffer demo_config 3 ?bad fresh_buffer = Some (- 1, fresh_buffer, quiet_world)"
    "gnl_loop demo_config 3 (CHR '','') fresh_buffer ?bad =
       Some (GNL_ERROR, None, fresh_buffer, quiet_world)"
    "get_next_line_delim demo_config 3 (Some None) (CHR '','') ((\<lambda>_. None)(3 \<mapsto> fresh_buffer)) ?bad =
       Some (GNL_ERROR, Some None, (\<lambda>_. None)(3 \<mapsto> fresh_buffer), quiet_world)"
    by simp_all
  ultimately show ?thesis by simp
qed

subsection \<open>C7: the state after a failed call\<close>

text \<open>
  Claim C7. The last successful state is the state that the last successful step of the
  call has left. For a buffer that satisfies the invariant:
  a refused growth reallocation leaves the buffer unmodified; a refused allocation of the
  line leaves the buffer unmodified; a refill that fails (in growth or in the read)
  leaves the unconsumed bytes, \<open>len\<close> and \<open>eof_reached\<close> as they were. When the loop
  returns \<open>GNL_ERROR\<close>, the line is null, the invariant holds, and the unconsumed bytes,
  \<open>len\<close> and \<open>eof_reached\<close> are exactly those of the buffer that the successful refills
  of this call have produced (the buffer at entry when there was none); the bytes still
  to be returned are the same as before the call, so that the call can be repeated. A
  failed call stores the null line and puts that buffer into the registry. When the
  buffer of a new descriptor cannot be created, the registry is unchanged.
\<close>

theorem failed_call_keeps_state:
  assumes "buf_inv cfg buf"
  shows
    "(gnl_ensure_capacity w buf needed = Some (rc_e, buf_e, w_e) \<and> rc_e < 0 \<longrightarrow> buf_e = buf) \<and>
     (gnl_extract_line w buf p = (None, buf_x, w_x) \<longrightarrow> buf_x = buf) \<and>
     (gnl_fill_buffer cfg fd w buf = Some (n_f, buf_f, w_f) \<and> n_f < 0 \<longrightarrow>
        unconsumed buf_f = unconsumed buf \<and> len buf_f = len buf \<and>
        eof_reached buf_f = eof_reached buf \<and> pending w_f = pending w) \<and>
     (gnl_loop cfg fd d buf w = Some (GNL_ERROR, ln_l, buf_l, w_l) \<longrightarrow>
        ln_l = None \<and> buf_inv cfg buf_l \<and>
        (\<exists>buf_k w_k. refilled cfg fd buf w buf_k w_k \<and>
           unconsumed buf_l = unconsumed buf_k \<and> len buf_l = len buf_k \<and>
           eof_reached buf_l = eof_reached buf_k \<and> pending w_l = pending w_k) \<and>
        unconsumed buf_l @ pending w_l fd = unconsumed buf @ pending w fd) \<and>
     (g fd = Some buf \<and> 0 \<le> fd \<and> fd < GNL_MAX_FD cfg \<and>
      get_next_line_delim cfg fd (Some cell) d g w = Some (GNL_ERROR, out_c, g_c, w_c) \<longrightarrow>
        out_c = Some None \<and>
        (\<exists>buf_c. g_c = g(fd \<mapsto> buf_c) \<and>
           gnl_loop cfg fd d buf w = Some (GNL_ERROR, None, buf_c, w_c))) \<and>
     (g_o fd = None \<and> gnl_get_buffer cfg fd g_o w = (None, g_n, w_n) \<longrightarrow>
        g_n = g_o \<and> pending w_n = pending w \<and>
        (0 \<le> fd \<and> fd < GNL_MAX_FD cfg \<longrightarrow>
           get_next_line_delim cfg fd (Some cell) d g_o w = Some (GNL_ERROR, Some None, g_o, w_n)))"
proof (intro conjI impI)
  assume "gnl_ensure_capacity w buf needed = Some (rc_e, buf_e, w_e) \<and> rc_e < 0"
  then show "buf_e = buf" by (auto dest: ensure_fail_unchanged)
next
  assume "gnl_extract_line w buf p = (None, buf_x, w_x)"
  then show "buf_x = buf" by (rule extract_fail_unchanged)
next
  assume a: "gnl_fill_buffer cfg fd w buf = Some (n_f, buf_f, w_f) \<and> n_f < 0"
  then have f: "gnl_fill_buffer cfg fd w buf = Some (n_f, buf_f, w_f)" and n: "n_f < 0"
    by simp_all
  from fill_fail_post [OF assms f n]
  show "unconsumed buf_f = unconsumed buf" "len buf_f = len buf"
    "eof_reached buf_f = eof_reached buf" "pending w_f = pending w" by simp_all
next
  assume l: "gnl_loop cfg fd d buf w = Some (GNL_ERROR, ln_l, buf_l, w_l)"
  note e = gnl_loop_error_state [OF assms l]
  from e show "ln_l = None" by simp
  from gnl_loop_inv [OF assms l] show "buf_inv cfg buf_l" by simp
  from e show k: "\<exists>buf_k w_k. refilled cfg fd buf w buf_k w_k \<and>
           unconsumed buf_l = unconsumed buf_k \<and> len buf_l = len buf_k \<and>
           eof_reached buf_l = eof_reached buf_k \<and> pending w_l = pending w_k" by simp
  then obtain buf_k w_k where k: "refilled cfg fd buf w buf_k w_k"
    "unconsumed buf_l = unconsumed buf_k" "pending w_l = pending w_k" by blast
  from refilled_content [OF k(1) assms] k(2,3)
  show "unconsumed buf_l @ pending w_l fd = unconsumed buf @ pending w fd" by simp
next
  assume a: "g fd = Some buf \<and> 0 \<le> fd \<and> fd < GNL_MAX_FD cfg \<and>
      get_next_line_delim cfg fd (Some cell) d g w = Some (GNL_ERROR, out_c, g_c, w_c)"
  then have gb: "gnl_get_buffer cfg fd g w = (Some buf, g, w)" by (simp add: gnl_get_buffer_def)
  from gnl_loop_total [OF assms, of fd d w] obtain rc ln buf' w' where
    loop: "gnl_loop cfg fd d buf w = Some (rc, ln, buf', w')"
    by (cases "gnl_loop cfg fd d buf w") auto
  from a have v: "\<not> (fd < 0 \<or> GNL_MAX_FD cfg \<le> fd)"
    and c: "get_next_line_delim cfg fd (Some cell) d g w = Some (GNL_ERROR, out_c, g_c, w_c)"
    by simp_all
  from c v gb loop have r: "rc = GNL_ERROR" "out_c = Some ln" "g_c = g(fd \<mapsto> buf')" "w_c = w'"
    by (simp_all add: get_next_line_delim_def)
  from gnl_loop_error_state [OF assms loop [unfolded r(1)]] have n: "ln = None" by simp
  with r show "out_c = Some None" by simp
  from loop r n show "\<exists>buf_c. g_c = g(fd \<mapsto> buf_c) \<and>
           gnl_loop cfg fd d buf w = Some (GNL_ERROR, None, buf_c, w_c)" by simp
next
  assume a: "g_o fd = None \<and> gnl_get_buffer cfg fd g_o w = (None, g_n, w_n)"
  then have h: "handle_inv cfg fd g_o w" by (simp add: handle_inv_def)
  from h have "g_n = g_o \<and> pending w_n = pending w"
    by (cases rule: get_buffer_cases) (use a in auto)
  then show "g_n = g_o" "pending w_n = pending w" by simp_all
  assume "0 \<le> fd \<and> fd < GNL_MAX_FD cfg"
  with a \<open>g_n = g_o\<close>
  show "get_next_line_delim cfg fd (Some cell) d g_o w = Some (GNL_ERROR, Some None, g_o, w_n)"
    by (simp add: get_next_line_delim_def)
qed

text \<open>
  A stream without delimiter, a chunk size of 4 and a refused reallocation: the call
  fails after one successful refill, and the four bytes read so far stay in the buffer.
\<close>

theorem failed_call_keeps_state_witness:
  "buf_inv demo_config fresh_buffer \<and>
   (\<exists>w'. gnl_loop demo_config 3 (CHR '','') fresh_buffer stuck_world =
           Some (GNL_ERROR, None, half_read_buffer, w') \<and>
         unconsumed half_read_buffer @ pending w' 3 = ''abcdefgh'') \<and>
   (\<exists>w'. gnl_fill_buffer demo_config 3 stuck_world half_read_buffer =
           Some (- 1, half_read_buffer, w'))"
proof -
  have i: "buf_inv demo_config fresh_buffer"
    by (simp add: buf_inv_def demo_config_def fresh_buffer_def SSIZE_MAX_def)
  obtain w' where
    l: "gnl_loop demo_config 3 (CHR '','') fresh_buffer stuck_world =
          Some (GNL_ERROR, None, half_read_buffer, w')"
    by (simp add: demo_config_def fresh_buffer_def stuck_world_def half_read_buffer_def
        eval_defs)
  obtain w'' where
    f: "gnl_fill_buffer demo_config 3 stuck_world half_read_buffer =
          Some (- 1, half_read_buffer, w'')"
    by (simp add: demo_config_def stuck_world_def half_read_buffer_def eval_defs)
  note t = failed_call_keeps_state [OF i, where w = stuck_world and fd = 3 and
      d = "CHR '',''" and ln_l = None and buf_l = half_read_buffer and w_l = w']
  from t l have "unconsumed half_read_buffer @ pending w' 3 =
      unconsumed fresh_buffer @ pending stuck_world 3" by simp
  then have c: "unconsumed half_read_buffer @ pending w' 3 = ''abcdefgh''"
    by (simp add: unconsumed_def fresh_buffer_def stuck_world_def)
  from i l c f show ?thesis by blast
qed

subsection \<open>C8: the invariant of the buffer\<close>

text \<open>
  Claim C8. A buffer that satisfies the invariant has \<open>len <= size\<close>. The invariant is
  preserved by \<open>gnl_ensure_capacity\<close> (called with the chunk size, as the program does),
  by \<open>gnl_extract_line\<close> (called with a position among the unconsumed bytes), by
  \<open>gnl_fill_buffer\<close>, by the loop and by \<open>get_next_line_delim\<close>, and a buffer created by
  \<open>gnl_get_buffer\<close> satisfies it. The unconsumed bytes are kept by a growth, extended at
  their end by a refill and cut at their front by an extraction. No operation resets
  \<open>eof_reached\<close> once it is set. On such a buffer every one of these operations
  returns.
\<close>

theorem buffer_invariant_preserved:
  assumes "buf_inv cfg buf"
  shows "len buf \<le> size_b buf \<and>
    (gnl_ensure_capacity w buf (GNL_BUFFER_SIZE cfg) = Some (rc_e, buf_e, w_e) \<longrightarrow>
       buf_inv cfg buf_e \<and> len buf_e \<le> size_b buf_e \<and>
       unconsumed buf_e = unconsumed buf \<and> eof_reached buf_e = eof_reached buf) \<and>
    (p < len buf \<and> gnl_extract_line w buf p = (ln_x, buf_x, w_x) \<longrightarrow>
       buf_inv cfg buf_x \<and> len buf_x \<le> size_b buf_x \<and> eof_reached buf_x = eof_reached buf \<and>
       unconsumed buf_x = (if ln_x = None then unconsumed buf else drop (Suc p) (unconsumed buf))) \<and>
    (gnl_fill_buffer cfg fd w buf = Some (n_f, buf_f, w_f) \<longrightarrow>
       buf_inv cfg buf_f \<and> len buf_f \<le> size_b buf_f \<and>
       take (len buf) (unconsumed buf_f) = unconsumed buf \<and>
       (eof_reached buf \<longrightarrow> eof_reached buf_f)) \<and>
    (gnl_loop cfg fd d buf w = Some (rc_l, ln_l, buf_l, w_l) \<longrightarrow>
       buf_inv cfg buf_l \<and> len buf_l \<le> size_b buf_l \<and>
       (eof_reached buf \<longrightarrow> eof_reached buf_l)) \<and>
    (g fd = Some buf \<and> get_next_line_delim cfg fd line d g w = Some (rc_c, out_c, g_c, w_c) \<longrightarrow>
       (\<exists>buf_c. g_c fd = Some buf_c \<and> buf_inv cfg buf_c \<and> len buf_c \<le> size_b buf_c \<and>
               (eof_reached buf \<longrightarrow> eof_reached buf_c))) \<and>
    (g_o fd = None \<and> gnl_get_buffer cfg fd g_o w = (Some buf_n, g_n, w_n) \<longrightarrow>
       buf_inv cfg buf_n \<and> len buf_n = 0 \<and> \<not> eof_reached buf_n \<and> g_n fd = Some buf_n) \<and>
    (\<exists>r. gnl_ensure_capacity w buf (GNL_BUFFER_SIZE cfg) = Some r) \<and>
    (\<exists>r. gnl_fill_buffer cfg fd w buf = Some r) \<and>
    (\<exists>r. gnl_loop cfg fd d buf w = Some r) \<and>
    (g fd = Some buf \<longrightarrow> (\<exists>r. get_next_line_delim cfg fd line d g w = Some r))"
proof (intro conjI impI)
  show "len buf \<le> size_b buf" using assms by (simp add: buf_inv_def)
next
  assume "gnl_ensure_capacity w buf (GNL_BUFFER_SIZE cfg) = Some (rc_e, buf_e, w_e)"
  note e = ensure_post [OF assms this]
  from e show "buf_inv cfg buf_e" "unconsumed buf_e = unconsumed buf"
    "eof_reached buf_e = eof_reached buf" by simp_all
  from e(3) show "len buf_e \<le> size_b buf_e" by (simp add: buf_inv_def)
next
  assume a: "p < len buf \<and> gnl_extract_line w buf p = (ln_x, buf_x, w_x)"
  then have p: "p < len buf" by simp
  from assms p have "buf_inv cfg buf_x \<and> eof_reached buf_x = eof_reached buf \<and>
       unconsumed buf_x = (if ln_x = None then unconsumed buf else drop (Suc p) (unconsumed buf))"
    by (cases rule: extract_cases [where w = w]) (use a assms in auto)
  then show "buf_inv cfg buf_x" "eof_reached buf_x = eof_reached buf"
    "unconsumed buf_x = (if ln_x = None then unconsumed buf else drop (Suc p) (unconsumed buf))"
    by simp_all
  then show "len buf_x \<le> size_b buf_x" by (simp add: buf_inv_def)
next
  assume "gnl_fill_buffer cfg fd w buf = Some (n_f, buf_f, w_f)"
  note k = fill_keeps_prefix [OF assms this]
  from k show "buf_inv cfg buf_f" "take (len buf) (unconsumed buf_f) = unconsumed buf" by simp_all
  from k show "len buf_f \<le> size_b buf_f" by (simp add: buf_inv_def)
  assume "eof_reached buf" with k show "eof_reached buf_f" by simp
next
  assume "gnl_loop cfg fd d buf w = Some (rc_l, ln_l, buf_l, w_l)"
  note l = gnl_loop_inv [OF assms this]
  from l show "buf_inv cfg buf_l" by simp
  from l show "len buf_l \<le> size_b buf_l" by (simp add: buf_inv_def)
  assume "eof_reached buf" with l show "eof_reached buf_l" by simp
next
  assume a: "g fd = Some buf \<and> get_next_line_delim cfg fd line d g w = Some (rc_c, out_c, g_c, w_c)"
  then have gb: "gnl_get_buffer cfg fd g w = (Some buf, g, w)" by (simp add: gnl_get_buffer_def)
  show "\<exists>buf_c. g_c fd = Some buf_c \<and> buf_inv cfg buf_c \<and> len buf_c \<le> size_b buf_c \<and>
               (eof_reached buf \<longrightarrow> eof_reached buf_c)"
  proof (cases "line = None \<or> fd < 0 \<or> fd \<ge> GNL_MAX_FD cfg")
    case True
    with a have "g_c = g" by (auto simp: get_next_line_delim_def)
    with a assms show ?thesis by (simp add: buf_inv_def)
  next
    case False
    from gnl_loop_total [OF assms, of fd d w] obtain rc ln buf' w' where
      loop: "gnl_loop cfg fd d buf w = Some (rc, ln, buf', w')"
      by (cases "gnl_loop cfg fd d buf w") auto
    with a gb False have "g_c = g(fd \<mapsto> buf')" by (simp add: get_next_line_delim_def)
    with gnl_loop_inv [OF assms loop] show ?thesis by (simp add: buf_inv_def)
  qed
next
  assume a: "g_o fd = None \<and> gnl_get_buffer cfg fd g_o w = (Some buf_n, g_n, w_n)"
  then have h: "handle_inv cfg fd g_o w" by (simp add: handle_inv_def)
  from h have "buf_inv cfg buf_n \<and> len buf_n = 0 \<and> \<not> eof_reached buf_n \<and> g_n fd = Some buf_n"
  proof (cases rule: get_buffer_cases)
    case (fail w_e)
    with a show ?thesis by simp
  next
    case (ok buf g1 w_e)
    with a have "content fd buf_n w_n = pending w_n fd"
      by (simp add: handle_content_def)
    then have "unconsumed buf_n = []" by (simp add: content_def)
    moreover from ok a have i: "buf_inv cfg buf_n" by (simp add: st_inv_def)
    ultimately have "len buf_n = 0" using length_unconsumed [OF i] by simp
    with ok a i show ?thesis by simp
  qed
  then show "buf_inv cfg buf_n" "len buf_n = 0" "\<not> eof_reached buf_n" "g_n fd = Some buf_n"
    by simp_all
next
  show "\<exists>r. gnl_ensure_capacity w buf (GNL_BUFFER_SIZE cfg) = Some r"
    using assms by (cases rule: ensure_cases [where w = w]) simp_all
next
  show "\<exists>r. gnl_fill_buffer cfg fd w buf = Some r"
    using fill_total [OF assms, of fd w] by simp
next
  show "\<exists>r. gnl_loop cfg fd d buf w = Some r"
    using gnl_loop_total [OF assms, of fd d w] by simp
next
  assume e: "g fd = Some buf"
  from gnl_loop_total [OF assms, of fd d w] obtain r where
    "gnl_loop cfg fd d buf w = Some r" by auto
  with e show "\<exists>r. get_next_line_delim cfg fd line d g w = Some r"
    by (cases r) (simp add: get_next_line_delim_def gnl_get_buffer_def)
qed

text \<open>
  A full buffer of 4 bytes: a refill doubles it, and the loop keeps the invariant.
\<close>

theorem buffer_invariant_preserved_witness:
  "buf_inv demo_config demo_buffer \<and>
   (\<exists>n buf3 w3. gnl_fill_buffer demo_config 3 quiet_world demo_buffer = Some (n, buf3, w3) \<and>
      buf_inv demo_config buf3 \<and> len buf3 \<le> size_b buf3 \<and> size_b buf3 = 8 \<and>
      unconsumed buf3 = ''b,,c'' \<and> eof_reached buf3) \<and>
   (\<exists>rc ln buf4 w4. gnl_loop demo_config 3 (CHR '','') demo_buffer quiet_world =
      Some (rc, ln, buf4, w4) \<and> buf_inv demo_config buf4 \<and> len buf4 \<le> size_b buf4)"
proof -
  have i: "buf_inv demo_config demo_buffer"
    by (simp add: buf_inv_def demo_config_def demo_buffer_def SSIZE_MAX_def)
  obtain n buf3 w3 where
    f: "gnl_fill_buffer demo_config 3 quiet_world demo_buffer = Some (n, buf3, w3)"
      "size_b buf3 = 8" "unconsumed buf3 = ''b,,c''" "eof_reached buf3"
    by (simp add: demo_config_def demo_buffer_def quiet_world_def unconsumed_def eval_defs)
  obtain rc ln buf4 w4 where
    l: "gnl_loop demo_config 3 (CHR '','') demo_buffer quiet_world = Some (rc, ln, buf4, w4)"
    by (simp add: demo_config_def demo_buffer_def quiet_world_def eval_defs)
  note t = buffer_invariant_preserved [OF i, where w = quiet_world and fd = 3 and
      d = "CHR '',''" and n_f = n and buf_f = buf3 and w_f = w3 and rc_l = rc and ln_l = ln and
      buf_l = buf4 and w_l = w4]
  from t f(1) have "buf_inv demo_config buf3 \<and> len buf3 \<le> size_b buf3" by simp
  moreover from t l have "buf_inv demo_config buf4 \<and> len buf4 \<le> size_b buf4" by simp
  ultimately show ?thesis using i f l by simp
qed

subsection \<open>C9: idempotent release\<close>

text \<open>
  Claim C9. \<open>gnl_close\<close> returns nothing but the registry, so it has no way to report an
  error. Closing a descriptor twice is the same as closing it once. Closing a descriptor
  that has no entry, that is negative or that is not below \<open>GNL_MAX_FD\<close> leaves the
  registry as it is. A descriptor in range has no entry after it was closed, and the
  entries of all other descriptors are untouched.
\<close>

theorem release_idempotent:
  "gnl_close cfg fd (gnl_close cfg fd g) = gnl_close cfg fd g \<and>
   (g fd = None \<or> fd < 0 \<or> GNL_MAX_FD cfg \<le> fd \<longrightarrow> gnl_close cfg fd g = g) \<and>
   (0 \<le> fd \<and> fd < GNL_MAX_FD cfg \<longrightarrow> gnl_close cfg fd g fd = None) \<and>
   (\<forall>fd'. fd' \<noteq> fd \<longrightarrow> gnl_close cfg fd g fd' = g fd')"
  by (auto simp: gnl_close_def split: option.splits)

text \<open>
  A registry with one entry, for descriptor 3.
\<close>

theorem release_idempotent_witness:
  "gnl_close demo_config 3 demo_registry = (\<lambda>_. None) \<and>
   gnl_close demo_config 3 (gnl_close demo_config 3 demo_registry) = (\<lambda>_. None) \<and>
   gnl_close demo_config 7 demo_registry = demo_registry \<and>
   gnl_close demo_config (- 1) demo_registry = demo_registry \<and>
   gnl_close demo_config 1024 demo_registry = demo_registry \<and>
   gnl_close demo_config 7 demo_registry 3 = Some demo_buffer"
proof -
  have c: "gnl_close demo_config 3 demo_registry = (\<lambda>_. None)"
    by (simp add: gnl_close_def demo_registry_def demo_config_def)
  have n: "demo_registry 7 = None" "(3::int) \<noteq> 7" "(- 1::int) < 0"
    "GNL_MAX_FD demo_config \<le> 1024"
    by (simp_all add: demo_registry_def demo_config_def)
  note t = release_idempotent [of demo_config _ demo_registry]
  from t [of 3] c have "gnl_close demo_config 3 (gnl_close demo_config 3 demo_registry) = (\<lambda>_. None)"
    by simp
  moreover from t [of 7] n have "gnl_close demo_config 7 demo_registry = demo_registry"
    "gnl_close demo_config 7 demo_registry 3 = demo_registry 3" by simp_all
  moreover from t [of "- 1"] n have "gnl_close demo_config (- 1) demo_registry = demo_registry"
    by simp
  moreover from t [of 1024] n have "gnl_close demo_config 1024 demo_registry = demo_registry"
    by simp
  moreover have "demo_registry 3 = Some demo_buffer" by (simp add: demo_registry_def)
  ultimately show ?thesis using c by simp
qed

subsection \<open>C10: the returned line is zero-terminated\<close>

text \<open>
  Claim C10. A call with a non-null \<open>line\<close> and a descriptor in range, whose entry
  satisfies the invariant, returns, and it returns one of the three codes. When it returns \<open>GNL_LINE_READ\<close>, the block it stored in \<open>*line\<close>
  holds the bytes of the segment followed by one zero byte: for a segment of \<open>L\<close>
  bytes the block has \<open>L + 1\<close> bytes and the byte at index \<open>L\<close> is zero; the segment
  is not empty and is the front of the bytes still to be returned. When the call returns
  \<open>GNL_EOF\<close> or \<open>GNL_ERROR\<close>, \<open>*line\<close> is null.
\<close>

theorem line_zero_terminated:
  assumes "handle_inv cfg fd g w" "0 \<le> fd" "fd < GNL_MAX_FD cfg"
  shows "\<exists>rc out g' w'.
           get_next_line_delim cfg fd (Some cell) d g w = Some (rc, out, g', w') \<and>
           (rc = GNL_LINE_READ \<or> rc = GNL_EOF \<or> rc = GNL_ERROR) \<and>
           (rc = GNL_LINE_READ \<longrightarrow>
              (\<exists>seg. out = Some (Some (seg @ [CHR 0x00])) \<and> seg \<noteq> [] \<and>
                     length (seg @ [CHR 0x00]) = length seg + 1 \<and>
                     (seg @ [CHR 0x00]) ! length seg = CHR 0x00 \<and>
                     seg @ handle_content fd g' w' = handle_content fd g w)) \<and>
           (rc = GNL_EOF \<or> rc = GNL_ERROR \<longrightarrow> out = Some None)"
proof -
  from call_total [OF assms(1), of "Some cell" d] obtain rc out g' w' where
    c: "get_next_line_delim cfg fd (Some cell) d g w = Some (rc, out, g', w')"
    by (cases "get_next_line_delim cfg fd (Some cell) d g w") auto
  from call_valid_post [OF assms c] obtain ln where
    ln: "out = Some ln" "call_post cfg fd d g w rc ln g' w'" by blast
  from ln(2) have rc: "rc = GNL_LINE_READ \<or> rc = GNL_EOF \<or> rc = GNL_ERROR"
    by (simp add: call_post_def)
  have line: "\<exists>seg. out = Some (Some (seg @ [CHR 0x00])) \<and> seg \<noteq> [] \<and>
                   length (seg @ [CHR 0x00]) = length seg + 1 \<and>
                   (seg @ [CHR 0x00]) ! length seg = CHR 0x00 \<and>
                   seg @ handle_content fd g' w' = handle_content fd g w"
    if "rc = GNL_LINE_READ"
  proof -
    from ln(2) that obtain l where l: "ln = Some l" "l = butlast l @ [CHR 0x00]"
      "butlast l \<noteq> []" "butlast l @ handle_content fd g' w' = handle_content fd g w"
      by (cases ln) (auto simp: call_post_def)
    obtain seg where seg: "seg = butlast l" by simp
    from l(2) have "out = Some (Some (seg @ [CHR 0x00]))" using ln(1) l(1) seg by simp
    moreover from l(3,4) have "seg \<noteq> []" "seg @ handle_content fd g' w' = handle_content fd g w"
      by (simp_all add: seg)
    ultimately show ?thesis by (intro exI [of _ seg]) simp
  qed
  have null: "out = Some None" if "rc = GNL_EOF \<or> rc = GNL_ERROR"
    using ln that by (auto simp: call_post_def GNL_EOF_def GNL_ERROR_def GNL_LINE_READ_def)
  from c rc line null show ?thesis
    by (intro exI [of _ rc] exI [of _ out] exI [of _ g'] exI [of _ w']) blast
qed

text \<open>
  The first call on the stream \<open>a,b,,c\<close>.
\<close>

theorem line_zero_terminated_witness:
  "\<exists>g' w'.
     get_next_line_delim demo_config 3 (Some None) (CHR '','') (\<lambda>_. None) demo_world =
       Some (GNL_LINE_READ, Some (Some [CHR ''a'', CHR '','', CHR 0x00]), g', w') \<and>
     handle_content 3 g' w' = ''b,,c''"
proof -
  have h: "handle_inv demo_config 3 (\<lambda>_. None) demo_world"
    "(0::int) \<le> 3" "3 < GNL_MAX_FD demo_config"
    by (simp_all add: handle_inv_def demo_config_def)
  have "\<exists>g' w'. get_next_line_delim demo_config 3 (Some None) (CHR '','') (\<lambda>_. None) demo_world =
       Some (GNL_LINE_READ, Some (Some [CHR ''a'', CHR '','', CHR 0x00]), g', w')"
    by (simp add: demo_config_def demo_world_def eval_defs)
  then obtain g' w' where
    c: "get_next_line_delim demo_config 3 (Some None) (CHR '','') (\<lambda>_. None) demo_world =
       Some (GNL_LINE_READ, Some (Some [CHR ''a'', CHR '','', CHR 0x00]), g', w')"
    by blast
  from line_zero_terminated [OF h, of None "CHR '',''"] c obtain seg where
    s: "Some (Some [CHR ''a'', CHR '','', CHR 0x00]) = Some (Some (seg @ [CHR 0x00]))"
      "seg @ handle_content 3 g' w' = handle_content 3 (\<lambda>_. None) demo_world"
    by auto
  from s(1) have "seg @ [CHR 0x00] = ''a,'' @ [CHR 0x00]" by simp
  then have "seg = ''a,''" by (simp only: append_same_eq)
  with s(2) have "handle_content 3 g' w' = ''b,,c''"
    by (simp add: handle_content_def demo_world_def)
  with c show ?thesis by (intro exI [of _ g'] exI [of _ w']) simp
qed

end
